theory Spec2Isabelle
  imports Complex_Main "HOL-Library.Log_Nat"
begin

section \<open>A model of pubsub.js\<close>

text \<open>
  pubsub.js defines one class, \<open>PubSub\<close>, whose objects keep a map from topic names to
  arrays of \<open>Subscription\<close> objects, with the methods \<open>subscribe\<close>, \<open>publish\<close> and
  \<open>unsubscribe\<close> (which hands over to \<open>unsubscribeSymbol\<close> or \<open>unsubscribeHandler\<close>).
  Each method is modelled by a function of the same name from the state before the call
  and the arguments to the result and the state after the call. A call that raises has
  an error for its result, and still a state after it, since what it has changed before
  raising stays changed. \<open>publish\<close> also returns the handler calls it has made.
\<close>

section \<open>JavaScript values used by pubsub.js\<close>

text \<open>
  A JavaScript number is a double. A finite one is modelled by the rational it stands
  for, the three special values by constructors of their own.
\<close>

datatype number = Finite rat | PosInfinity | NegInfinity | NaN

text \<open>
  Function objects and symbols are compared by identity only (\<open>===\<close>), so each is
  modelled by a natural number naming the object.
\<close>

datatype jsval =
    JUndefined
  | JNull
  | JBoolean bool
  | JNumber number
  | JString string
  | JSymbol nat
  | JFunction nat
  | JObject nat

text \<open>
  The only arithmetic pubsub.js does is \<open>invocationsLeft -= 1\<close>. A double subtraction
  gives the double nearest to the exact difference, the one with the even significand
  when two are equally near. \<open>binary_exponent q\<close> is the integer \<open>e\<close> with
  \<open>2^e \<le> |q| < 2^(e+1)\<close>; the doubles of that size are the multiples of \<open>2^(e-52)\<close>,
  and the smallest ones are the multiples of \<open>2^(-1074)\<close>. The difference is never
  large enough to round to an infinity.
\<close>

definition binary_exponent :: "rat \<Rightarrow> int" where
  "binary_exponent q =
     (if 1 \<le> \<bar>q\<bar> then int (floorlog 2 (nat \<lfloor>\<bar>q\<bar>\<rfloor>)) - 1
      else - int (floorlog 2 (nat (\<lceil>1 / \<bar>q\<bar>\<rceil> - 1))))"

definition ties_to_even :: "rat \<Rightarrow> int" where
  "ties_to_even x =
     (if x - of_int \<lfloor>x\<rfloor> < 1 / 2 then \<lfloor>x\<rfloor>
      else if 1 / 2 < x - of_int \<lfloor>x\<rfloor> then \<lfloor>x\<rfloor> + 1
      else if even \<lfloor>x\<rfloor> then \<lfloor>x\<rfloor> else \<lfloor>x\<rfloor> + 1)"

definition spacing :: "rat \<Rightarrow> rat" where
  "spacing q = power_int 2 (max (binary_exponent q - 52) (- 1074))"

definition nearest_double :: "rat \<Rightarrow> rat" where
  "nearest_double q = (if q = 0 then 0 else of_int (ties_to_even (q / spacing q)) * spacing q)"

text \<open>\<open>x < 1\<close>, \<open>x > 0\<close> and \<open>x - 1\<close> on numbers; the comparisons are false on NaN.\<close>

fun less_than_one :: "number \<Rightarrow> bool" where
  "less_than_one (Finite q) = (q < 1)"
| "less_than_one PosInfinity = False"
| "less_than_one NegInfinity = True"
| "less_than_one NaN = False"

fun greater_than_zero :: "number \<Rightarrow> bool" where
  "greater_than_zero (Finite q) = (0 < q)"
| "greater_than_zero PosInfinity = True"
| "greater_than_zero NegInfinity = False"
| "greater_than_zero NaN = False"

fun minus_one :: "number \<Rightarrow> number" where
  "minus_one (Finite q) = Finite (nearest_double (q - 1))"
| "minus_one PosInfinity = PosInfinity"
| "minus_one NegInfinity = NegInfinity"
| "minus_one NaN = NaN"

text \<open>
  Errors are values: a \<open>TypeError\<close> raised by pubsub.js itself (with its message), or
  whatever value a subscriber's handler threw.
\<close>

datatype error = TypeError string | Thrown jsval

section \<open>Argument checks\<close>

text \<open>
  Each assert function either raises or falls through. The model returns the error on
  the left, and on the right the checked arguments at the type the check has established
  (the characters of the topic, the identity of the handler, the identity of the symbol).
\<close>

fun assertValidTopic :: "jsval \<Rightarrow> error + string" where
  "assertValidTopic (JString s) =
     (if length s = 0 then Inl (TypeError ''Topic must be a non empty string'') else Inr s)"
| "assertValidTopic v = Inl (TypeError ''Topic must be a non empty string'')"

fun assertValidTopicAndHandler :: "jsval \<Rightarrow> jsval \<Rightarrow> error + string \<times> nat" where
  "assertValidTopicAndHandler topic h =
     (case assertValidTopic topic of
        Inl e \<Rightarrow> Inl e
      | Inr t \<Rightarrow>
          (case h of
             JFunction f \<Rightarrow> Inr (t, f)
           | _ \<Rightarrow> Inl (TypeError ''Handler must be a function.'')))"

fun assertSymbol :: "jsval \<Rightarrow> error + nat" where
  "assertSymbol (JSymbol y) = Inr y"
| "assertSymbol v = Inl (TypeError ''Argument must be a symbol'')"

section \<open>Subscriptions\<close>

text \<open>The fields of a \<open>Subscription\<close> object.\<close>

record Subscription =
  symbol :: nat
  handler :: nat
  invocationsLeft :: number

text \<open>
  The constructor checks \<open>invocationsLeft\<close> only; \<open>subscribe\<close>, its one caller, has
  checked the handler before and has made the symbol itself.
\<close>

fun newSubscription :: "nat \<Rightarrow> nat \<Rightarrow> jsval \<Rightarrow> error + Subscription" where
  "newSubscription y f (JNumber n) =
     (if less_than_one n then Inl (TypeError ''invocationsLeft must by a number > 0'')
      else Inr \<lparr>symbol = y, handler = f, invocationsLeft = n\<rparr>)"
| "newSubscription y f v = Inl (TypeError ''invocationsLeft must by a number > 0'')"

section \<open>The map of topics\<close>

text \<open>
  A JavaScript \<open>Map\<close> keeps its keys in insertion order, and \<open>unsubscribeSymbol\<close> walks
  its values in that order: the map is an association list, a new key going to the end.
  The arrays hold references to \<open>Subscription\<close> objects, each reference a natural number
  naming the object. The arrays themselves are shared, mutable objects: \<open>publish\<close> walks
  the very array that \<open>unsubscribeHandler\<close> splices. pubsub.js never replaces or deletes
  the array of a topic once it is set, so the array object of a topic is the list
  stored under the topic, and a mutation of the array is an update of that entry.
\<close>

type_synonym topicMap = "(string \<times> nat list) list"

definition has :: "topicMap \<Rightarrow> string \<Rightarrow> bool" where
  "has m t = (map_of m t \<noteq> None)"

definition get :: "topicMap \<Rightarrow> string \<Rightarrow> nat list option" where
  "get m t = map_of m t"

text \<open>The elements of the array of a topic (none when the topic has no array).\<close>

definition array :: "topicMap \<Rightarrow> string \<Rightarrow> nat list" where
  "array m t = (case map_of m t of None \<Rightarrow> [] | Some subs \<Rightarrow> subs)"

text \<open>An in-place mutation of the array stored under a topic.\<close>

fun mutate :: "string \<Rightarrow> (nat list \<Rightarrow> nat list) \<Rightarrow> topicMap \<Rightarrow> topicMap" where
  "mutate t f [] = []"
| "mutate t f ((k, subs) # m) = (if k = t then (k, f subs) # m else (k, subs) # mutate t f m)"

text \<open>\<open>subscriptions.splice(idx, 1)\<close>.\<close>

definition splice :: "nat \<Rightarrow> 'a list \<Rightarrow> 'a list" where
  "splice idx xs = take idx xs @ drop (Suc idx) xs"

text \<open>
  The index of the first element a \<open>for ... of subscriptions.entries()\<close> loop stops at.
\<close>

fun first_index :: "('a \<Rightarrow> bool) \<Rightarrow> 'a list \<Rightarrow> nat option" where
  "first_index P [] = None"
| "first_index P (x # xs) = (if P x then Some 0 else map_option Suc (first_index P xs))"

section \<open>The state\<close>

text \<open>
  The state has the \<open>Subscription\<close> objects, by reference, and the one field of the
  PubSub object, the map. It also has the supply of symbols, which belongs to the
  JavaScript engine: \<open>Symbol(topic)\<close> makes a symbol no other call has returned.
  \<open>subscribe\<close> makes each \<open>Subscription\<close> object right after a symbol, and the model
  names the object by the number of that symbol.
\<close>

record world =
  objects :: "nat \<Rightarrow> Subscription"
  topicToSubscriptionsMap :: topicMap
  nextSymbol :: nat

text \<open>No object is in use at the start; what the store holds there does not matter.\<close>

definition init :: world where
  "init = \<lparr>objects = (\<lambda>r. undefined), topicToSubscriptionsMap = [], nextSymbol = 0\<rparr>"

text \<open>The subscriptions of a topic, in the order of its array.\<close>

definition subscriptions :: "world \<Rightarrow> string \<Rightarrow> nat list" where
  "subscriptions w t = array (topicToSubscriptionsMap w) t"

section \<open>subscribe\<close>

definition subscribe :: "world \<Rightarrow> jsval \<Rightarrow> jsval \<Rightarrow> jsval \<Rightarrow> (error + jsval) \<times> world" where
  "subscribe w topic h invocationsLeftArg =
     (let invocationsLeft0 =
            (if invocationsLeftArg = JUndefined then JNumber PosInfinity else invocationsLeftArg)
      in case assertValidTopicAndHandler topic h of
           Inl e \<Rightarrow> (Inl e, w)
         | Inr (t, f) \<Rightarrow>
             (let m = topicToSubscriptionsMap w;
                  m1 = (if \<not> has m t then m @ [(t, [])] else m);
                  y = nextSymbol w;
                  w1 = w\<lparr>topicToSubscriptionsMap := m1, nextSymbol := Suc y\<rparr>
              in case newSubscription y f invocationsLeft0 of
                   Inl e \<Rightarrow> (Inl e, w1)
                 | Inr sub \<Rightarrow>
                     (Inr (JSymbol y),
                      w1\<lparr>objects := (objects w1)(y := sub),
                         topicToSubscriptionsMap := mutate t (\<lambda>subs. subs @ [y]) m1\<rparr>)))"

section \<open>unsubscribe\<close>

definition unsubscribeHandler :: "world \<Rightarrow> jsval \<Rightarrow> jsval \<Rightarrow> (error + bool) \<times> world" where
  "unsubscribeHandler w topic h =
     (case assertValidTopicAndHandler topic h of
        Inl e \<Rightarrow> (Inl e, w)
      | Inr (t, f) \<Rightarrow>
          if \<not> has (topicToSubscriptionsMap w) t then (Inr False, w)
          else (case first_index (\<lambda>subscription. handler (objects w subscription) = f)
                       (subscriptions w t) of
                  Some idx \<Rightarrow>
                    (Inr True,
                     w\<lparr>topicToSubscriptionsMap := mutate t (splice idx) (topicToSubscriptionsMap w)\<rparr>)
                | None \<Rightarrow> (Inr False, w)))"

text \<open>The outer loop of \<open>unsubscribeSymbol\<close>, over the values of the map in order.\<close>

fun scanSymbol :: "(nat \<Rightarrow> Subscription) \<Rightarrow> nat \<Rightarrow> topicMap \<Rightarrow> bool \<times> topicMap" where
  "scanSymbol objs y [] = (False, [])"
| "scanSymbol objs y ((t, subs) # m) =
     (case first_index (\<lambda>subscription. symbol (objs subscription) = y) subs of
        Some idx \<Rightarrow> (True, (t, splice idx subs) # m)
      | None \<Rightarrow> (case scanSymbol objs y m of (b, m') \<Rightarrow> (b, (t, subs) # m')))"

definition unsubscribeSymbol :: "world \<Rightarrow> jsval \<Rightarrow> (error + bool) \<times> world" where
  "unsubscribeSymbol w v =
     (case assertSymbol v of
        Inl e \<Rightarrow> (Inl e, w)
      | Inr y \<Rightarrow>
          (case scanSymbol (objects w) y (topicToSubscriptionsMap w) of
             (b, m') \<Rightarrow> (Inr b, w\<lparr>topicToSubscriptionsMap := m'\<rparr>)))"

fun unsubscribe :: "world \<Rightarrow> jsval list \<Rightarrow> (error + bool) \<times> world" where
  "unsubscribe w [a] = unsubscribeSymbol w a"
| "unsubscribe w [a, b] = unsubscribeHandler w a b"
| "unsubscribe w args = (Inl (TypeError ''Must pass 1 or 2 arguments''), w)"

section \<open>publish\<close>

text \<open>
  A handler is any function of the program that uses pubsub.js. What it does when
  called is a parameter of the model: \<open>env i f this args w\<close> says what happens when the
  call number \<open>i\<close> of a publish (counting from 0) is a call of the function \<open>f\<close> on the
  subscription object \<open>this\<close> with \<open>args\<close> in the state \<open>w\<close>: the state the call leaves,
  and \<open>Some v\<close> when it throws \<open>v\<close>, \<open>None\<close> when it returns (its result is ignored).
  The state it leaves can be any: a handler may call \<open>subscribe\<close>, \<open>publish\<close> and
  \<open>unsubscribe\<close> on the same PubSub object, and write the fields of \<open>this\<close>. A call of
  a handler is taken to end, and a handler that writes a field of a \<open>Subscription\<close> to
  write a value of the type the field has. Every call \<open>publish\<close> makes is recorded, in
  order: the function, the object it is called on, and the arguments.
\<close>

type_synonym env = "nat \<Rightarrow> nat \<Rightarrow> nat \<Rightarrow> jsval list \<Rightarrow> world \<Rightarrow> jsval option \<times> world"

type_synonym calls = "(nat \<times> nat \<times> jsval list) list"

text \<open>\<open>sub.invocationsLeft -= 1\<close>.\<close>

definition decrement :: "Subscription \<Rightarrow> Subscription" where
  "decrement sub = sub\<lparr>invocationsLeft := minus_one (invocationsLeft sub)\<rparr>"

text \<open>
  The arrow function passed to \<open>forEach\<close>, applied to the element at index \<open>k\<close>. The
  decrement reads and writes the object \<open>sub\<close> refers to, in the state the handler
  has left, wherever the object then is.
\<close>

definition callback ::
  "env \<Rightarrow> string \<Rightarrow> jsval list \<Rightarrow> nat \<Rightarrow> world \<Rightarrow> calls \<Rightarrow> error option \<times> world \<times> calls" where
  "callback env topic args k w tr =
     (let sub = subscriptions w topic ! k in
      if greater_than_zero (invocationsLeft (objects w sub)) then
        (case env (length tr) (handler (objects w sub)) sub args w of
           (Some v, w1) \<Rightarrow> (Some (Thrown v), w1, tr @ [(handler (objects w sub), sub, args)])
         | (None, w1) \<Rightarrow>
             (None, w1\<lparr>objects := (objects w1)(sub := decrement (objects w1 sub))\<rparr>,
              tr @ [(handler (objects w sub), sub, args)]))
      else
        (case unsubscribeHandler w (JString topic) (JFunction (handler (objects w sub))) of
           (Inl e, w') \<Rightarrow> (Some e, w', tr)
         | (Inr b, w') \<Rightarrow> (None, w', tr)))"

text \<open>
  \<open>Array.prototype.forEach\<close> reads the length once, before the first call, then visits
  the indices \<open>0 .. len - 1\<close> in order, calling the function at an index only when the
  array still has an element there at that moment.
\<close>

function forEach ::
  "env \<Rightarrow> string \<Rightarrow> jsval list \<Rightarrow> nat \<Rightarrow> nat \<Rightarrow> world \<Rightarrow> calls \<Rightarrow> error option \<times> world \<times> calls" where
  "forEach env topic args k len w tr =
     (if k < len then
        (if k < length (subscriptions w topic) then
           (case callback env topic args k w tr of
              (Some e, w', tr') \<Rightarrow> (Some e, w', tr')
            | (None, w', tr') \<Rightarrow> forEach env topic args (Suc k) len w' tr')
         else forEach env topic args (Suc k) len w tr)
      else (None, w, tr))"
  by pat_completeness auto
termination
  by (relation "measure (\<lambda>(env, topic, args, k, len, w, tr). len - k)") auto

declare forEach.simps [simp del]

definition publish :: "env \<Rightarrow> world \<Rightarrow> jsval \<Rightarrow> jsval list \<Rightarrow> (error + bool) \<times> world \<times> calls" where
  "publish env w topic args =
     (case assertValidTopic topic of
        Inl e \<Rightarrow> (Inl e, w, [])
      | Inr t \<Rightarrow>
          (case get (topicToSubscriptionsMap w) t of
             None \<Rightarrow> (Inr False, w, [])
           | Some subs \<Rightarrow>
               if length subs = 0 then (Inr False, w, [])
               else (case forEach env t args 0 (length subs) w [] of
                       (Some e, w', tr) \<Rightarrow> (Inl e, w', tr)
                     | (None, w', tr) \<Rightarrow> (Inr True, w', tr))))"

section \<open>Sequences of calls\<close>

text \<open>
  Each call of a sequence comes with the behaviour the handlers have while it runs, so
  that a handler may return during one publish and throw during the next.
\<close>

datatype call = Subscribe jsval jsval jsval | Publish jsval "jsval list" | Unsubscribe "jsval list"

fun exec :: "env \<Rightarrow> world \<Rightarrow> call \<Rightarrow> world" where
  "exec env w (Subscribe topic h n) = snd (subscribe w topic h n)"
| "exec env w (Publish topic args) = fst (snd (publish env w topic args))"
| "exec env w (Unsubscribe args) = snd (unsubscribe w args)"

fun run :: "world \<Rightarrow> (env \<times> call) list \<Rightarrow> world" where
  "run w [] = w"
| "run w ((env, c) # cs) = run (exec env w c) cs"

text \<open>Handlers that return and leave the state as it is.\<close>

definition quiet :: env where
  "quiet = (\<lambda>i f this args w. (None, w))"

text \<open>A handler that throws \<open>v\<close> whenever it is called, all others returning.\<close>

definition throwing :: "nat \<Rightarrow> jsval \<Rightarrow> env" where
  "throwing f v = (\<lambda>i g this args w. (if g = f then Some v else None, w))"

text \<open>
  A handler that publishes to a topic the first time a publish calls a handler, the
  handlers returning at once when called within that inner publish:
  \<open>() => { if (!done) { done = true; pubsub.publish(topic) } }\<close>.
\<close>

definition republishing :: "string \<Rightarrow> env" where
  "republishing t =
     (\<lambda>i f this args w. if i = 0 then (None, fst (snd (publish quiet w (JString t) []))) else (None, w))"

text \<open>
  A handler that unsubscribes a function from a topic whenever it is called:
  \<open>() => { pubsub.unsubscribe(topic, g) }\<close>.
\<close>

definition unsubscribing :: "string \<Rightarrow> nat \<Rightarrow> env" where
  "unsubscribing t g =
     (\<lambda>i f this args w. (None, snd (unsubscribe w [JString t, JFunction g])))"

section \<open>Notions the properties are stated with\<close>

text \<open>
  The registry as a reader of the map sees it: each topic with the objects its array
  refers to.
\<close>

definition view :: "world \<Rightarrow> (string \<times> Subscription list) list" where
  "view w = map (\<lambda>(t, subs). (t, map (objects w) subs)) (topicToSubscriptionsMap w)"

definition subscr :: "nat \<Rightarrow> nat \<Rightarrow> number \<Rightarrow> Subscription" where
  "subscr y f n = \<lparr>symbol = y, handler = f, invocationsLeft = n\<rparr>"

text \<open>A subscription \<open>publish\<close> would call, and one it would remove instead.\<close>

definition eligible :: "Subscription \<Rightarrow> bool" where
  "eligible sub = greater_than_zero (invocationsLeft sub)"

definition exhausted :: "Subscription \<Rightarrow> bool" where
  "exhausted sub = (\<not> greater_than_zero (invocationsLeft sub))"

text \<open>All references held by the arrays of the registry, topic after topic.\<close>

definition refs :: "world \<Rightarrow> nat list" where
  "refs w = concat (map snd (topicToSubscriptionsMap w))"

text \<open>
  The pass of a publish over the array of topic \<open>t\<close> reaches index \<open>k\<close> without a throw,
  finds an eligible subscription there, and the call of its handler throws \<open>v\<close>.
\<close>

definition throws_at :: "env \<Rightarrow> world \<Rightarrow> string \<Rightarrow> jsval list \<Rightarrow> nat \<Rightarrow> jsval \<Rightarrow> bool" where
  "throws_at env w t args k v =
     (case forEach env t args 0 k w [] of
        (Some e, wk, trk) \<Rightarrow> False
      | (None, wk, trk) \<Rightarrow>
          k < length (subscriptions wk t) \<and>
          greater_than_zero (invocationsLeft (objects wk (subscriptions wk t ! k))) \<and>
          fst (env (length trk) (handler (objects wk (subscriptions wk t ! k)))
                 (subscriptions wk t ! k) args wk) = Some v)"




text \<open>
  A call whose budget, when it is a \<open>subscribe\<close> with one, is a whole number or
  \<open>Infinity\<close> (the documented use: "Optional integer"), and a counter that is a whole
  number not below zero, or \<open>Infinity\<close>.
\<close>

fun whole_budget :: "call \<Rightarrow> bool" where
  "whole_budget (Subscribe topic h (JNumber (Finite q))) = (of_int \<lfloor>q\<rfloor> = q)"
| "whole_budget (Subscribe topic h (JNumber NaN)) = False"
| "whole_budget c = True"

fun counter_ok :: "number \<Rightarrow> bool" where
  "counter_ok (Finite q) = (0 \<le> q \<and> of_int \<lfloor>q\<rfloor> = q)"
| "counter_ok PosInfinity = True"
| "counter_ok NegInfinity = False"
| "counter_ok NaN = False"

text \<open>Every counter in the registry is a whole number not below zero, or unbounded.\<close>

definition counters_ok :: "world \<Rightarrow> bool" where
  "counters_ok w = list_all (\<lambda>r. counter_ok (invocationsLeft (objects w r))) (refs w)"

text \<open>The objects after one \<open>invocationsLeft -= 1\<close> on each object of a set.\<close>

definition decremented :: "nat set \<Rightarrow> (nat \<Rightarrow> Subscription) \<Rightarrow> nat \<Rightarrow> Subscription" where
  "decremented R objs = (\<lambda>r. if r \<in> R then decrement (objs r) else objs r)"

text \<open>The call \<open>publish\<close> makes for a subscription: its handler, on it, with the arguments.\<close>

definition call_of :: "world \<Rightarrow> jsval list \<Rightarrow> nat \<Rightarrow> nat \<times> nat \<times> jsval list" where
  "call_of w args r = (handler (objects w r), r, args)"

section \<open>Example registries\<close>

text \<open>Three subscribers of one topic, the first for two invocations.\<close>

definition three_subscribers :: world where
  "three_subscribers =
     run init
       (map (Pair quiet)
          [Subscribe (JString ''a'') (JFunction 1) (JNumber (Finite 2)),
           Subscribe (JString ''a'') (JFunction 2) JUndefined,
           Subscribe (JString ''a'') (JFunction 3) JUndefined])"

text \<open>One subscriber whose one invocation has been used.\<close>

definition one_exhausted :: world where
  "one_exhausted =
     run init
       (map (Pair quiet)
          [Subscribe (JString ''a'') (JFunction 1) (JNumber (Finite 1)),
           Publish (JString ''a'') [JNumber (Finite 42)]])"

text \<open>Two topics, a handler subscribed to both.\<close>

definition two_topics :: world where
  "two_topics =
     run init
       (map (Pair quiet)
          [Subscribe (JString ''x'') (JFunction 1) JUndefined,
           Subscribe (JString ''x'') (JFunction 2) JUndefined,
           Subscribe (JString ''y'') (JFunction 2) JUndefined])"



section \<open>Lemmas\<close>

subsection \<open>Subtracting one from a whole number\<close>

lemma ties_to_even_of_int: "ties_to_even (of_int n) = n"
  by (simp add: ties_to_even_def)

lemma ties_to_even_nonneg: "0 \<le> x \<Longrightarrow> 0 \<le> ties_to_even x"
  by (auto simp: ties_to_even_def)

text \<open>The doubles around a number are a power of two apart.\<close>

lemma spacing_cases:
  "(\<exists>j. spacing q = 1 / 2 ^ j \<and> binary_exponent q \<le> 52) \<or>
   (\<exists>j. spacing q = 2 ^ j \<and> 52 < binary_exponent q)"
proof (cases "binary_exponent q \<le> 52")
  case True
  then have "max (binary_exponent q - 52) (- 1074) \<le> 0" by simp
  then have "spacing q = 1 / 2 ^ nat (- max (binary_exponent q - 52) (- 1074)) \<or>
             spacing q = 1 / 2 ^ 0"
    unfolding spacing_def power_int_def by (auto simp: inverse_eq_divide power_one_over)
  with True show ?thesis by blast
next
  case False
  then have "0 \<le> max (binary_exponent q - 52) (- 1074)" by simp
  then have "spacing q = 2 ^ nat (max (binary_exponent q - 52) (- 1074))"
    unfolding spacing_def power_int_def by simp
  with False show ?thesis by auto
qed

lemma binary_exponent_small:
  assumes "of_int \<lfloor>r\<rfloor> = r" and "\<bar>r\<bar> < 2 ^ 53" and "r \<noteq> 0"
  shows "binary_exponent r \<le> 52"
proof -
  from assms(1) obtain n where n: "r = of_int n" by metis
  with assms(3) have "n \<noteq> 0" by auto
  then have 1: "1 \<le> \<bar>r\<bar>" unfolding n by (simp flip: of_int_abs)
  have "\<bar>r\<bar> = of_int \<bar>n\<bar>" by (simp add: n)
  with assms(2) have "(of_int \<bar>n\<bar> :: rat) < of_int (2 ^ 53)" by simp
  then have "\<bar>n\<bar> < 2 ^ 53" by (simp only: of_int_less_iff)
  then have "nat \<lfloor>\<bar>r\<bar>\<rfloor> < 2 ^ 53" unfolding n by (simp flip: of_int_abs add: nat_less_iff)
  then have "floorlog 2 (nat \<lfloor>\<bar>r\<bar>\<rfloor>) \<le> 53" by (simp add: floorlog_le_iff)
  with 1 show ?thesis by (simp add: binary_exponent_def)
qed

text \<open>A whole number below \<open>2^53\<close> is a double.\<close>

lemma nearest_double_small:
  assumes "of_int \<lfloor>r\<rfloor> = r" and "\<bar>r\<bar> < 2 ^ 53"
  shows "nearest_double r = r"
proof (cases "r = 0")
  case True
  then show ?thesis by (simp add: nearest_double_def)
next
  case False
  from assms(1) obtain n where n: "r = of_int n" by metis
  from binary_exponent_small [OF assms False] spacing_cases [of r]
  obtain j where j: "spacing r = 1 / 2 ^ j" by auto
  have "r / spacing r = of_int (n * 2 ^ j)" unfolding j by (simp add: n)
  then have "ties_to_even (r / spacing r) = n * 2 ^ j" by (simp only: ties_to_even_of_int)
  then have "nearest_double r = of_int (n * 2 ^ j) * spacing r"
    using False by (simp add: nearest_double_def)
  also have "\<dots> = r" unfolding j by (simp add: n)
  finally show ?thesis .
qed

text \<open>The double nearest to a whole number that is not negative is one too.\<close>

lemma nearest_double_whole:
  assumes "of_int \<lfloor>r\<rfloor> = r" and "0 \<le> r"
  shows "of_int \<lfloor>nearest_double r\<rfloor> = nearest_double r \<and> 0 \<le> nearest_double r"
proof (cases "r = 0")
  case True
  then show ?thesis by (simp add: nearest_double_def)
next
  case False
  from assms(1) obtain n where n: "r = of_int n" by metis
  from spacing_cases [of r] consider j where "spacing r = 1 / 2 ^ j" | j where "spacing r = 2 ^ j"
    by blast
  then show ?thesis
  proof cases
    case 1
    have "r / spacing r = of_int (n * 2 ^ j)" unfolding 1 by (simp add: n)
    then have "ties_to_even (r / spacing r) = n * 2 ^ j" by (simp only: ties_to_even_of_int)
    then have "nearest_double r = of_int (n * 2 ^ j) * spacing r"
      using False by (simp add: nearest_double_def)
    also have "\<dots> = r" unfolding 1 by (simp add: n)
    finally show ?thesis using assms by simp
  next
    case 2
    have "0 \<le> r / spacing r" using assms(2) by (simp add: 2)
    then have p: "0 \<le> ties_to_even (r / spacing r)" by (rule ties_to_even_nonneg)
    have "nearest_double r = of_int (ties_to_even (r / spacing r) * 2 ^ j)"
      using False by (simp add: nearest_double_def 2)
    moreover have "(0::rat) \<le> of_int (ties_to_even (r / spacing r) * 2 ^ j)"
      using p by simp
    ultimately show ?thesis by (simp only: floor_of_int)
  qed
qed

lemma minus_one_whole:
  "Suc n \<le> 2 ^ 53 \<Longrightarrow> minus_one (Finite (of_nat (Suc n))) = Finite (of_nat n)"
proof -
  assume "Suc n \<le> 2 ^ 53"
  then have "n < 2 ^ 53" by simp
  then have "(of_nat n :: rat) < of_nat (2 ^ 53)" by (simp only: of_nat_less_iff)
  then have "\<bar>of_nat n :: rat\<bar> < 2 ^ 53" by simp
  moreover have "of_int \<lfloor>of_nat n :: rat\<rfloor> = (of_nat n :: rat)" by simp
  ultimately have "nearest_double (of_nat n) = of_nat n" by (rule nearest_double_small [rotated])
  then show ?thesis by simp
qed

subsection \<open>Finding and splicing\<close>

lemma first_index_None: "(first_index P xs = None) = (\<forall>x\<in>set xs. \<not> P x)"
  by (induction xs) auto

lemma first_index_Some:
  "(first_index P xs = Some i) = (i < length xs \<and> P (xs ! i) \<and> (\<forall>j<i. \<not> P (xs ! j)))"
proof (induction xs arbitrary: i)
  case Nil
  then show ?case by simp
next
  case (Cons x xs)
  show ?case
  proof (cases "P x")
    case True
    then show ?thesis by (cases i) auto
  next
    case False
    show ?thesis
    proof (cases i)
      case 0
      with False show ?thesis by auto
    next
      case (Suc i')
      have "(\<forall>j<Suc i'. \<not> P ((x # xs) ! j)) = (\<forall>j<i'. \<not> P (xs ! j))"
        using False by (auto simp: less_Suc_eq_0_disj)
      with False Suc Cons.IH [of i'] show ?thesis by auto
    qed
  qed
qed

lemma set_splice: "set (splice idx xs) \<subseteq> set xs"
  by (auto simp: splice_def dest: in_set_takeD in_set_dropD)


lemma length_splice: "idx < length xs \<Longrightarrow> length (splice idx xs) = length xs - 1"
  by (auto simp: splice_def)

lemma nth_splice:
  "splice idx xs ! i = (if i < idx then xs ! i else xs ! Suc i)" if "Suc i < length xs"
  using that by (auto simp: splice_def nth_append min_def)

lemma drop_splice: "idx \<le> k \<Longrightarrow> drop k (splice idx xs) = drop (Suc k) xs"
  by (cases "idx < length xs") (auto simp: splice_def min_def)

lemma list_all_splice: "list_all P xs \<Longrightarrow> list_all P (splice idx xs)"
  using set_splice [of idx xs] by (auto simp: list_all_iff)


subsection \<open>The array of a topic\<close>

text \<open>The array of a topic is the value of the first entry with that key.\<close>

lemma has_first:
  "has m t \<Longrightarrow> \<exists>j<length m. fst (m ! j) = t \<and> snd (m ! j) = array m t \<and>
     mutate t f m = m[j := (t, f (array m t))]"
proof (induction m)
  case Nil
  then show ?case by (simp add: has_def)
next
  case (Cons p m)
  obtain k subs where p: "p = (k, subs)" by (cases p)
  show ?case
  proof (cases "k = t")
    case True
    then have "fst ((p # m) ! 0) = t \<and> snd ((p # m) ! 0) = array (p # m) t \<and>
      mutate t f (p # m) = (p # m)[0 := (t, f (array (p # m) t))]"
      by (simp add: p array_def)
    then show ?thesis by blast
  next
    case False
    then have "has m t" using Cons.prems by (simp add: has_def p)
    from Cons.IH [OF this] obtain j where j: "j < length m" "fst (m ! j) = t"
      "snd (m ! j) = array m t" "mutate t f m = m[j := (t, f (array m t))]" by blast
    have "array (p # m) t = array m t" using False by (simp add: array_def p)
    with j False have "Suc j < length (p # m) \<and> fst ((p # m) ! Suc j) = t \<and> snd ((p # m) ! Suc j) = array (p # m) t \<and>
      mutate t f (p # m) = (p # m)[Suc j := (t, f (array (p # m) t))]"
      by (simp add: p)
    then show ?thesis by blast
  qed
qed

lemma array_get: "get m t = Some subs \<Longrightarrow> array m t = subs"
  by (simp add: get_def array_def)

lemma has_array: "k < length (array m t) \<Longrightarrow> has m t"
  by (auto simp: has_def array_def split: option.splits)

lemma has_get_array: "has m t \<Longrightarrow> get m t = Some (array m t)"
  by (auto simp: has_def get_def array_def)

lemma get_mutate:
  "get (mutate t f m) t' = (if t' = t then map_option f (get m t) else get m t')"
  by (induction m) (auto simp: get_def)

lemma has_mutate: "has (mutate t f m) t' = has m t'"
  using get_mutate [of t f m t'] by (auto simp: has_def get_def)

lemma array_mutate: "array (mutate t f m) t = (if has m t then f (array m t) else [])"
  using get_mutate [of t f m t] by (auto simp: array_def get_def has_def split: option.splits)

lemma array_other_mutate: "t' \<noteq> t \<Longrightarrow> array (mutate t f m) t' = array m t'"
  using get_mutate [of t f m t'] by (simp add: array_def get_def)

lemma mutate_cong: "f (array m t) = g (array m t) \<Longrightarrow> mutate t f m = mutate t g m"
  by (induction m) (auto simp: array_def)

lemma mutate_id: "mutate t (\<lambda>subs. subs) m = m"
  by (induction m) auto

lemma mutate_same: "f (array m t) = array m t \<Longrightarrow> mutate t f m = m"
  using mutate_cong [of f m t "\<lambda>subs. subs"] by (simp add: mutate_id)

lemma map_fst_mutate: "map fst (mutate t f m) = map fst m"
  by (induction m) auto

lemma has_append: "has (m @ [(t, [])]) t"
  by (simp add: has_def map_add_def split: option.splits)

lemma array_append_other: "\<not> has m t' \<Longrightarrow> array (m @ [(t', [])]) t = array m t"
  by (cases "map_of m t") (auto simp: has_def array_def map_add_def)

lemma valid_topic: "assertValidTopic topic = Inr t \<Longrightarrow> topic = JString t \<and> t \<noteq> []"
  by (cases topic) (auto split: if_splits)

lemma valid_topic_handler:
  "assertValidTopicAndHandler topic h = Inr (t, f) \<Longrightarrow>
     topic = JString t \<and> t \<noteq> [] \<and> h = JFunction f \<and> assertValidTopic topic = Inr t"
  by (cases topic; cases h) (auto split: if_splits)

subsection \<open>What unsubscribe changes\<close>

lemma scanSymbol_frame:
  "scanSymbol objs y m = (b, m') \<Longrightarrow>
     (\<not> b \<longrightarrow> m' = m) \<and>
     (b \<longrightarrow> (\<exists>j idx. j < length m \<and> idx < length (snd (m ! j)) \<and>
                 symbol (objs (snd (m ! j) ! idx)) = y \<and>
                 m' = m[j := (fst (m ! j), splice idx (snd (m ! j)))]))"
proof (induction m arbitrary: b m')
  case Nil
  then show ?case by simp
next
  case (Cons p m)
  obtain t subs where p: "p = (t, subs)" by (cases p)
  show ?case
  proof (cases "first_index (\<lambda>s. symbol (objs s) = y) subs")
    case (Some idx)
    then have idx: "idx < length subs" "symbol (objs (subs ! idx)) = y"
      by (simp_all add: first_index_Some)
    from Cons.prems Some have "b" "m' = (t, splice idx subs) # m"
      by (simp_all add: p)
    with idx have "0 < length (p # m) \<and> idx < length (snd ((p # m) ! 0)) \<and>
        symbol (objs (snd ((p # m) ! 0) ! idx)) = y \<and>
        m' = (p # m)[0 := (fst ((p # m) ! 0), splice idx (snd ((p # m) ! 0)))]"
      by (simp add: p)
    with \<open>b\<close> show ?thesis by blast
  next
    case None
    obtain b0 m0 where r: "scanSymbol objs y m = (b0, m0)" by (cases "scanSymbol objs y m")
    with Cons.prems None have eq: "b = b0" "m' = (t, subs) # m0" by (simp_all add: p)
    from Cons.IH [OF r] have IH: "\<not> b0 \<longrightarrow> m0 = m"
      "b0 \<longrightarrow> (\<exists>j idx. j < length m \<and> idx < length (snd (m ! j)) \<and>
                 symbol (objs (snd (m ! j) ! idx)) = y \<and>
                 m0 = m[j := (fst (m ! j), splice idx (snd (m ! j)))])" by blast+
    show ?thesis
    proof (cases b0)
      case False
      with IH eq show ?thesis by (simp add: p)
    next
      case True
      with IH obtain j idx where j: "j < length m" "idx < length (snd (m ! j))"
        "symbol (objs (snd (m ! j) ! idx)) = y" "m0 = m[j := (fst (m ! j), splice idx (snd (m ! j)))]"
        by blast
      then have "Suc j < length (p # m) \<and> idx < length (snd ((p # m) ! Suc j)) \<and>
        symbol (objs (snd ((p # m) ! Suc j) ! idx)) = y \<and>
        m' = (p # m)[Suc j := (fst ((p # m) ! Suc j), splice idx (snd ((p # m) ! Suc j)))]"
        using eq by (simp add: p)
      with True eq show ?thesis by blast
    qed
  qed
qed

lemma unsubscribeHandler_frame:
  assumes "unsubscribeHandler w a h = (r, w')"
  shows "(r \<noteq> Inr True \<longrightarrow> w' = w) \<and>
     (r = Inr True \<longrightarrow>
        (\<exists>j idx. j < length (topicToSubscriptionsMap w) \<and>
           idx < length (snd (topicToSubscriptionsMap w ! j)) \<and>
           w' = w\<lparr>topicToSubscriptionsMap :=
                  (topicToSubscriptionsMap w)
                    [j := (fst (topicToSubscriptionsMap w ! j),
                           splice idx (snd (topicToSubscriptionsMap w ! j)))]\<rparr>))"
proof (cases "assertValidTopicAndHandler a h")
  case (Inl e)
  with assms show ?thesis by (auto simp: unsubscribeHandler_def)
next
  case (Inr p)
  let ?m = "topicToSubscriptionsMap w"
  obtain t f where p: "p = (t, f)" by (cases p)
  show ?thesis
  proof (cases "has ?m t")
    case False
    with assms Inr p show ?thesis by (auto simp: unsubscribeHandler_def)
  next
    case True
    show ?thesis
    proof (cases "first_index (\<lambda>s. handler (objects w s) = f) (array ?m t)")
      case None
      with assms Inr p True show ?thesis by (auto simp: unsubscribeHandler_def subscriptions_def)
    next
      case (Some idx)
      with assms Inr p True have r: "r = Inr True"
        "w' = w\<lparr>topicToSubscriptionsMap := mutate t (splice idx) ?m\<rparr>"
        by (auto simp: unsubscribeHandler_def subscriptions_def)
      from has_first [OF True, of "splice idx"] obtain j where j: "j < length ?m" "fst (?m ! j) = t"
        "snd (?m ! j) = array ?m t" "mutate t (splice idx) ?m = ?m[j := (t, splice idx (array ?m t))]"
        by blast
      from Some have "idx < length (array ?m t)" by (simp add: first_index_Some)
      with j r have "j < length ?m \<and> idx < length (snd (?m ! j)) \<and>
                 w' = w\<lparr>topicToSubscriptionsMap := ?m[j := (fst (?m ! j), splice idx (snd (?m ! j)))]\<rparr>"
        by simp
      with r show ?thesis by blast
    qed
  qed
qed

lemma unsubscribe_effect:
  assumes "unsubscribe w args = (r, w')"
  shows "(r \<noteq> Inr True \<longrightarrow> w' = w) \<and>
     (r = Inr True \<longrightarrow>
        (\<exists>j idx. j < length (topicToSubscriptionsMap w) \<and>
           idx < length (snd (topicToSubscriptionsMap w ! j)) \<and>
           w' = w\<lparr>topicToSubscriptionsMap :=
                  (topicToSubscriptionsMap w)
                    [j := (fst (topicToSubscriptionsMap w ! j),
                           splice idx (snd (topicToSubscriptionsMap w ! j)))]\<rparr>))"
proof (cases args)
  case Nil
  with assms show ?thesis by auto
next
  case (Cons a as)
  show ?thesis
  proof (cases as)
    case Nil
    with Cons assms have u: "unsubscribeSymbol w a = (r, w')" by simp
    show ?thesis
    proof (cases "assertSymbol a")
      case (Inl e)
      with u show ?thesis by (auto simp: unsubscribeSymbol_def)
    next
      case (Inr y)
      obtain b m0 where s: "scanSymbol (objects w) y (topicToSubscriptionsMap w) = (b, m0)"
        by (cases "scanSymbol (objects w) y (topicToSubscriptionsMap w)")
      with u Inr have "r = Inr b" "w' = w\<lparr>topicToSubscriptionsMap := m0\<rparr>"
        by (auto simp: unsubscribeSymbol_def)
      with scanSymbol_frame [OF s] show ?thesis by auto
    qed
  next
    case as: (Cons b bs)
    show ?thesis
    proof (cases bs)
      case Nil
      with Cons as assms have "unsubscribeHandler w a b = (r, w')" by simp
      then show ?thesis by (rule unsubscribeHandler_frame)
    next
      case bs: (Cons c cs)
      with Cons as assms show ?thesis by auto
    qed
  qed
qed

subsection \<open>One step of the pass of publish\<close>

lemma unsubscribeHandler_no_error:
  "t \<noteq> [] \<Longrightarrow> \<exists>b w'. unsubscribeHandler w (JString t) (JFunction f) = (Inr b, w')"
  by (auto simp: unsubscribeHandler_def split: option.splits)

text \<open>
  At an exhausted subscription the step removes the first subscription of the array with
  the same handler, which stands at that index or before it.
\<close>

lemma callback_exhausted:
  assumes "t \<noteq> []" and "k < length (subscriptions w t)"
      and "\<not> greater_than_zero (invocationsLeft (objects w (subscriptions w t ! k)))"
  shows "\<exists>j\<le>k. handler (objects w (subscriptions w t ! j)) =
                   handler (objects w (subscriptions w t ! k)) \<and>
               (\<forall>i<j. handler (objects w (subscriptions w t ! i)) \<noteq>
                   handler (objects w (subscriptions w t ! k))) \<and>
               callback env t args k w tr =
                 (None, w\<lparr>topicToSubscriptionsMap := mutate t (splice j) (topicToSubscriptionsMap w)\<rparr>, tr)"
proof -
  let ?xs = "subscriptions w t"
  let ?f = "handler (objects w (?xs ! k))"
  let ?P = "\<lambda>s. handler (objects w s) = ?f"
  have h: "has (topicToSubscriptionsMap w) t"
    using assms(2) unfolding subscriptions_def by (rule has_array)
  have "\<exists>x\<in>set ?xs. ?P x" using assms(2) by (auto intro!: bexI [of _ "?xs ! k"])
  then obtain j where j: "first_index ?P ?xs = Some j"
    by (cases "first_index ?P ?xs") (auto simp: first_index_None)
  then have j': "j < length ?xs" "?P (?xs ! j)" "\<forall>i<j. \<not> ?P (?xs ! i)"
    by (simp_all add: first_index_Some)
  have "j \<le> k"
  proof (rule ccontr)
    assume "\<not> j \<le> k"
    then have "k < j" by simp
    with j'(3) show False by blast
  qed
  moreover have "callback env t args k w tr =
      (None, w\<lparr>topicToSubscriptionsMap := mutate t (splice j) (topicToSubscriptionsMap w)\<rparr>, tr)"
    using assms(1,3) h j by (simp add: callback_def Let_def unsubscribeHandler_def)
  ultimately show ?thesis using j' by blast
qed

lemma callback_error:
  assumes "t \<noteq> []" and "callback env t args k w tr = (Some e, w', tr')"
  shows "greater_than_zero (invocationsLeft (objects w (subscriptions w t ! k))) \<and>
         (\<exists>v. e = Thrown v \<and>
            env (length tr) (handler (objects w (subscriptions w t ! k))) (subscriptions w t ! k) args w
              = (Some v, w') \<and>
            tr' = tr @ [(handler (objects w (subscriptions w t ! k)), subscriptions w t ! k, args)])"
proof (cases "greater_than_zero (invocationsLeft (objects w (subscriptions w t ! k)))")
  case True
  obtain r w1 where e: "env (length tr) (handler (objects w (subscriptions w t ! k)))
       (subscriptions w t ! k) args w = (r, w1)"
    by (cases "env (length tr) (handler (objects w (subscriptions w t ! k))) (subscriptions w t ! k) args w")
  with assms(2) True show ?thesis
    by (cases r) (auto simp: callback_def Let_def)
next
  case False
  from unsubscribeHandler_no_error [OF assms(1), of w "handler (objects w (subscriptions w t ! k))"]
  obtain b w0 where "unsubscribeHandler w (JString t)
     (JFunction (handler (objects w (subscriptions w t ! k)))) = (Inr b, w0)"
    by blast
  with False assms(2) show ?thesis by (simp add: callback_def Let_def)
qed

subsection \<open>The pass of publish, in stretches\<close>

lemma forEach_done: "len \<le> k \<Longrightarrow> forEach env t args k len w tr = (None, w, tr)"
  by (simp add: forEach.simps)

lemma forEach_skip:
  "k < len \<Longrightarrow> \<not> k < length (subscriptions w t) \<Longrightarrow>
     forEach env t args k len w tr = forEach env t args (Suc k) len w tr"
  by (subst forEach.simps) simp

lemma forEach_next:
  "k < len \<Longrightarrow> k < length (subscriptions w t) \<Longrightarrow>
     callback env t args k w tr = (None, w', tr') \<Longrightarrow>
     forEach env t args k len w tr = forEach env t args (Suc k) len w' tr'"
  by (subst forEach.simps) simp

lemma forEach_stop:
  "k < len \<Longrightarrow> k < length (subscriptions w t) \<Longrightarrow>
     callback env t args k w tr = (Some e, w', tr') \<Longrightarrow>
     forEach env t args k len w tr = (Some e, w', tr')"
  by (subst forEach.simps) simp

lemma forEach_split:
  "k \<le> j \<Longrightarrow> j \<le> len \<Longrightarrow>
   forEach env t args k len w tr =
     (case forEach env t args k j w tr of
        (Some e, w', tr') \<Rightarrow> (Some e, w', tr')
      | (None, w', tr') \<Rightarrow> forEach env t args j len w' tr')"
proof (induction env t args k j w tr rule: forEach.induct)
  case (1 env t args k j w tr)
  show ?case
  proof (cases "k < j")
    case False
    with "1.prems" have "k = j" by simp
    then show ?thesis by (simp add: forEach_done)
  next
    case kj: True
    with "1.prems" have klen: "k < len" by simp
    show ?thesis
    proof (cases "k < length (subscriptions w t)")
      case False
      from "1.IH"(2) [OF kj False] kj "1.prems"
      have IH: "forEach env t args (Suc k) len w tr =
        (case forEach env t args (Suc k) j w tr of
          (Some e, w', tr') \<Rightarrow> (Some e, w', tr')
        | (None, w', tr') \<Rightarrow> forEach env t args j len w' tr')" by simp
      show ?thesis
        by (simp only: forEach_skip [OF klen False] forEach_skip [OF kj False] IH)
    next
      case True
      obtain r0 w0 tr0 where c: "callback env t args k w tr = (r0, w0, tr0)"
        by (cases "callback env t args k w tr")
      show ?thesis
      proof (cases r0)
        case (Some e)
        with c have c': "callback env t args k w tr = (Some e, w0, tr0)" by simp
        show ?thesis
          by (simp add: forEach_stop [OF klen True c'] forEach_stop [OF kj True c'])
      next
        case None
        with c have c': "callback env t args k w tr = (None, w0, tr0)" by simp
        from "1.IH"(1) [OF kj True c [symmetric] _ _ ] None kj "1.prems"
        have IH: "forEach env t args (Suc k) len w0 tr0 =
          (case forEach env t args (Suc k) j w0 tr0 of
            (Some e, w', tr') \<Rightarrow> (Some e, w', tr')
          | (None, w', tr') \<Rightarrow> forEach env t args j len w' tr')" by simp
        show ?thesis
          by (simp only: forEach_next [OF klen True c'] forEach_next [OF kj True c'] IH)
      qed
    qed
  qed
qed


text \<open>
  A pass none of whose steps raises ends, and an invariant of the index, the state and
  the calls made that every step carries on holds at the end.
\<close>

lemma forEach_invariant:
  assumes "I k w tr" and "k \<le> len"
      and "\<And>j w tr. j < len \<Longrightarrow> I j w tr \<Longrightarrow> j < length (subscriptions w t) \<Longrightarrow>
              \<exists>w' tr'. callback env t args j w tr = (None, w', tr') \<and> I (Suc j) w' tr'"
      and "\<And>j w tr. j < len \<Longrightarrow> I j w tr \<Longrightarrow> \<not> j < length (subscriptions w t) \<Longrightarrow>
              I (Suc j) w tr"
  shows "\<exists>w' tr'. forEach env t args k len w tr = (None, w', tr') \<and> I len w' tr'"
  using assms(1,2)
proof (induction "len - k" arbitrary: k w tr)
  case 0
  then have "k = len" by simp
  with "0.prems" show ?case by (simp add: forEach_done)
next
  case (Suc n)
  then have klen: "k < len" by simp
  have n: "n = len - Suc k" using Suc.hyps(2) by simp
  from klen have le: "Suc k \<le> len" by simp
  show ?case
  proof (cases "k < length (subscriptions w t)")
    case False
    from assms(4) [OF klen Suc.prems(1) False] have "I (Suc k) w tr" .
    from Suc.hyps(1) [OF n this le]
    show ?thesis by (simp add: forEach_skip [OF klen False])
  next
    case True
    from assms(3) [OF klen Suc.prems(1) True] obtain w0 tr0
      where c: "callback env t args k w tr = (None, w0, tr0)" and i: "I (Suc k) w0 tr0" by blast
    from Suc.hyps(1) [OF n i le]
    show ?thesis by (simp add: forEach_next [OF klen True c])
  qed
qed

subsection \<open>When the pass raises\<close>

lemma forEach_throw_here:
  assumes "k < len" and "k < length (subscriptions w t)"
      and "greater_than_zero (invocationsLeft (objects w (subscriptions w t ! k)))"
      and "env (length tr) (handler (objects w (subscriptions w t ! k))) (subscriptions w t ! k) args w
             = (Some v, w')"
  shows "forEach env t args k len w tr =
           (Some (Thrown v), w',
            tr @ [(handler (objects w (subscriptions w t ! k)), subscriptions w t ! k, args)])"
proof -
  have "callback env t args k w tr =
           (Some (Thrown v), w',
            tr @ [(handler (objects w (subscriptions w t ! k)), subscriptions w t ! k, args)])"
    using assms(3,4) by (simp add: callback_def Let_def)
  with assms(1,2) show ?thesis by (rule forEach_stop)
qed

text \<open>
  A pass that raises has gone through the indices below some \<open>j\<close> without raising, has
  found an eligible subscription at \<open>j\<close>, and has called its handler, which threw; the
  state left is the one that call left.
\<close>

lemma forEach_thrown:
  "t \<noteq> [] \<Longrightarrow> forEach env t args k len w tr = (Some e, w', tr') \<Longrightarrow>
     \<exists>j wj trj. k \<le> j \<and> j < len \<and> forEach env t args k j w tr = (None, wj, trj) \<and>
        j < length (subscriptions wj t) \<and>
        greater_than_zero (invocationsLeft (objects wj (subscriptions wj t ! j))) \<and>
        (\<exists>v. env (length trj) (handler (objects wj (subscriptions wj t ! j)))
                 (subscriptions wj t ! j) args wj = (Some v, w') \<and> e = Thrown v) \<and>
        tr' = trj @ [(handler (objects wj (subscriptions wj t ! j)), subscriptions wj t ! j, args)]"
proof (induction env t args k len w tr rule: forEach.induct)
  case (1 env t args k len w tr)
  show ?case
  proof (cases "k < len")
    case False
    with "1.prems" show ?thesis by (simp add: forEach.simps)
  next
    case klen: True
    show ?thesis
    proof (cases "k < length (subscriptions w t)")
      case False
      with klen "1.prems" have "forEach env t args (Suc k) len w tr = (Some e, w', tr')"
        by (simp add: forEach_skip)
      from "1.IH"(2) [OF klen False "1.prems"(1) this]
      obtain j wj trj where j: "Suc k \<le> j" "j < len"
        "forEach env t args (Suc k) j w tr = (None, wj, trj)"
        "j < length (subscriptions wj t)"
        "greater_than_zero (invocationsLeft (objects wj (subscriptions wj t ! j)))"
        "\<exists>v. env (length trj) (handler (objects wj (subscriptions wj t ! j)))
                 (subscriptions wj t ! j) args wj = (Some v, w') \<and> e = Thrown v"
        "tr' = trj @ [(handler (objects wj (subscriptions wj t ! j)), subscriptions wj t ! j, args)]"
        by blast
      from j(1) have kj: "k < j" by simp
      have "forEach env t args k j w tr = forEach env t args (Suc k) j w tr"
        using kj False by (rule forEach_skip)
      with j show ?thesis by (intro exI [of _ j] exI [of _ wj] exI [of _ trj]) simp
    next
      case True
      obtain r0 w0 tr0 where c: "callback env t args k w tr = (r0, w0, tr0)"
        by (cases "callback env t args k w tr")
      show ?thesis
      proof (cases r0)
        case None
        with c have c': "callback env t args k w tr = (None, w0, tr0)" by simp
        with klen True "1.prems" have "forEach env t args (Suc k) len w0 tr0 = (Some e, w', tr')"
          by (simp add: forEach_next)
        from "1.IH"(1) [OF klen True c [symmetric] _ _ "1.prems"(1) this] None
        obtain j wj trj where j: "Suc k \<le> j" "j < len"
          "forEach env t args (Suc k) j w0 tr0 = (None, wj, trj)"
          "j < length (subscriptions wj t)"
          "greater_than_zero (invocationsLeft (objects wj (subscriptions wj t ! j)))"
          "\<exists>v. env (length trj) (handler (objects wj (subscriptions wj t ! j)))
                   (subscriptions wj t ! j) args wj = (Some v, w') \<and> e = Thrown v"
          "tr' = trj @ [(handler (objects wj (subscriptions wj t ! j)), subscriptions wj t ! j, args)]"
          by auto
        from j(1) have kj: "k < j" by simp
        have "forEach env t args k j w tr = forEach env t args (Suc k) j w0 tr0"
          using kj True c' by (rule forEach_next)
        with j show ?thesis by (intro exI [of _ j] exI [of _ wj] exI [of _ trj]) simp
      next
        case (Some e0)
        with c have c': "callback env t args k w tr = (Some e0, w0, tr0)" by simp
        from forEach_stop [OF klen True c'] "1.prems"(2)
        have e: "e = e0" "w' = w0" "tr' = tr0" by simp_all
        from callback_error [OF "1.prems"(1) c'] e
        have "greater_than_zero (invocationsLeft (objects w (subscriptions w t ! k)))"
          "\<exists>v. env (length tr) (handler (objects w (subscriptions w t ! k)))
                   (subscriptions w t ! k) args w = (Some v, w') \<and> e = Thrown v"
          "tr' = tr @ [(handler (objects w (subscriptions w t ! k)), subscriptions w t ! k, args)]"
          by auto
        moreover have "forEach env t args k k w tr = (None, w, tr)" by (simp add: forEach_done)
        ultimately show ?thesis using klen True
          by (intro exI [of _ k] exI [of _ w] exI [of _ tr]) simp
      qed
    qed
  qed
qed

subsection \<open>A pass over exhausted subscriptions\<close>

lemma subscriptions_spliced:
  "k < length (subscriptions w t) \<Longrightarrow>
     subscriptions (w\<lparr>topicToSubscriptionsMap := mutate t (splice j) (topicToSubscriptionsMap w)\<rparr>) t
       = splice j (subscriptions w t)"
  by (auto simp: subscriptions_def array_mutate dest: has_array)

lemma forEach_exhausted:
  assumes "t \<noteq> []" and "\<forall>r\<in>set (subscriptions w t). exhausted (objects w r)"
  shows "\<exists>w'. forEach env t args k len w tr = (None, w', tr)"
proof (cases "k \<le> len")
  case False
  then show ?thesis by (simp add: forEach_done)
next
  case True
  let ?I = "\<lambda>(j::nat) w1 tr1. tr1 = tr \<and> (\<forall>r\<in>set (subscriptions w1 t). exhausted (objects w1 r))"
  have "\<exists>w' tr'. forEach env t args k len w tr = (None, w', tr') \<and> ?I len w' tr'"
  proof (rule forEach_invariant [where I = ?I, OF _ True])
    show "?I k w tr" using assms(2) by simp
  next
    fix j w1 tr1
    assume i: "?I j w1 tr1" and j: "j < length (subscriptions w1 t)"
    then have "\<not> greater_than_zero (invocationsLeft (objects w1 (subscriptions w1 t ! j)))"
      by (auto simp: exhausted_def)
    from callback_exhausted [OF assms(1) j this, of env args tr1]
    obtain i' where c: "callback env t args j w1 tr1 =
       (None, w1\<lparr>topicToSubscriptionsMap := mutate t (splice i') (topicToSubscriptionsMap w1)\<rparr>, tr1)"
      by blast
    have "\<forall>r\<in>set (subscriptions (w1\<lparr>topicToSubscriptionsMap :=
              mutate t (splice i') (topicToSubscriptionsMap w1)\<rparr>) t).
            exhausted (objects w1 r)"
      using i set_splice [of i' "subscriptions w1 t"] by (auto simp: subscriptions_spliced [OF j])
    with c i show "\<exists>w' tr'. callback env t args j w1 tr1 = (None, w', tr') \<and> ?I (Suc j) w' tr'"
      by simp
  qed simp
  then show ?thesis by auto
qed

subsection \<open>The result of publish\<close>

lemma publish_empty:
  assumes "assertValidTopic topic = Inr t" and "subscriptions w t = []"
  shows "publish env w topic args = (Inr False, w, [])"
  using assms by (auto simp: publish_def subscriptions_def array_def get_def split: option.splits)

lemma publish_pass:
  assumes "assertValidTopic topic = Inr t" and "subscriptions w t \<noteq> []"
  shows "publish env w topic args =
           (case forEach env t args 0 (length (subscriptions w t)) w [] of
              (Some e, w', tr) \<Rightarrow> (Inl e, w', tr)
            | (None, w', tr) \<Rightarrow> (Inr True, w', tr))"
  using assms by (auto simp: publish_def subscriptions_def array_def get_def split: option.splits)

lemma forEach_raises:
  assumes "t \<noteq> []"
  shows "(forEach env t args 0 len w [] = (Some (Thrown v), w', tr')) =
         (\<exists>k wk trk. k < len \<and>
            forEach env t args 0 k w [] = (None, wk, trk) \<and>
            k < length (subscriptions wk t) \<and>
            greater_than_zero (invocationsLeft (objects wk (subscriptions wk t ! k))) \<and>
            env (length trk) (handler (objects wk (subscriptions wk t ! k)))
              (subscriptions wk t ! k) args wk = (Some v, w') \<and>
            tr' = trk @ [(handler (objects wk (subscriptions wk t ! k)), subscriptions wk t ! k, args)])"
proof
  assume "forEach env t args 0 len w [] = (Some (Thrown v), w', tr')"
  from forEach_thrown [OF assms this]
  show "\<exists>k wk trk. k < len \<and>
            forEach env t args 0 k w [] = (None, wk, trk) \<and>
            k < length (subscriptions wk t) \<and>
            greater_than_zero (invocationsLeft (objects wk (subscriptions wk t ! k))) \<and>
            env (length trk) (handler (objects wk (subscriptions wk t ! k)))
              (subscriptions wk t ! k) args wk = (Some v, w') \<and>
            tr' = trk @ [(handler (objects wk (subscriptions wk t ! k)), subscriptions wk t ! k, args)]"
    by auto
next
  assume "\<exists>k wk trk. k < len \<and>
            forEach env t args 0 k w [] = (None, wk, trk) \<and>
            k < length (subscriptions wk t) \<and>
            greater_than_zero (invocationsLeft (objects wk (subscriptions wk t ! k))) \<and>
            env (length trk) (handler (objects wk (subscriptions wk t ! k)))
              (subscriptions wk t ! k) args wk = (Some v, w') \<and>
            tr' = trk @ [(handler (objects wk (subscriptions wk t ! k)), subscriptions wk t ! k, args)]"
  then obtain k wk trk where k: "k < len"
    "forEach env t args 0 k w [] = (None, wk, trk)"
    "k < length (subscriptions wk t)"
    "greater_than_zero (invocationsLeft (objects wk (subscriptions wk t ! k)))"
    "env (length trk) (handler (objects wk (subscriptions wk t ! k)))
       (subscriptions wk t ! k) args wk = (Some v, w')"
    "tr' = trk @ [(handler (objects wk (subscriptions wk t ! k)), subscriptions wk t ! k, args)]"
    by blast
  from k(1) have "0 \<le> k" "k \<le> len" by simp_all
  from forEach_split [OF this, of env t args w "[]"] k(2)
  have "forEach env t args 0 len w [] = forEach env t args k len wk trk" by simp
  also have "\<dots> = (Some (Thrown v), w', tr')"
    unfolding k(6) using k(1,3,4,5) by (rule forEach_throw_here)
  finally show "forEach env t args 0 len w [] = (Some (Thrown v), w', tr')" .
qed

lemma forEach_raises_thrown:
  "t \<noteq> [] \<Longrightarrow> forEach env t args k len w tr = (Some e, w', tr') \<Longrightarrow> \<exists>v. e = Thrown v"
  by (drule (1) forEach_thrown) blast

lemma throws_at_iff:
  "throws_at env w t args k v =
     (\<exists>wk trk w'. forEach env t args 0 k w [] = (None, wk, trk) \<and>
        k < length (subscriptions wk t) \<and>
        greater_than_zero (invocationsLeft (objects wk (subscriptions wk t ! k))) \<and>
        env (length trk) (handler (objects wk (subscriptions wk t ! k)))
          (subscriptions wk t ! k) args wk = (Some v, w'))"
proof -
  obtain r wk trk where f: "forEach env t args 0 k w [] = (r, wk, trk)"
    by (cases "forEach env t args 0 k w []")
  show ?thesis
  proof (cases r)
    case None
    with f show ?thesis
      by (auto simp: throws_at_def fst_def split: prod.splits)
  next
    case (Some e)
    with f show ?thesis by (simp add: throws_at_def)
  qed
qed

subsection \<open>What the methods keep when handlers are idle\<close>

lemma refs_update:
  "j < length m \<Longrightarrow>
     concat (map snd (m[j := (a, xs)])) =
       concat (map snd (take j m)) @ xs @ concat (map snd (drop (Suc j) m))"
  by (simp add: upd_conv_take_nth_drop)

lemma refs_split:
  "j < length m \<Longrightarrow>
     concat (map snd m) = concat (map snd (take j m)) @ snd (m ! j) @ concat (map snd (drop (Suc j) m))"
  using refs_update [of j m "fst (m ! j)" "snd (m ! j)"] by simp





subsection \<open>What subscribe changes\<close>

lemma newSubscription_Inr:
  "newSubscription y f v = Inr sub \<Longrightarrow>
     \<exists>b. v = JNumber b \<and> \<not> less_than_one b \<and> sub = \<lparr>symbol = y, handler = f, invocationsLeft = b\<rparr>"
  by (cases "(y, f, v)" rule: newSubscription.cases) (auto split: if_splits)

lemma refs_push:
  assumes "has m t"
  shows "\<exists>A C. concat (map snd m) = A @ array m t @ C \<and>
           concat (map snd (mutate t (\<lambda>subs. subs @ [s]) m)) = A @ (array m t @ [s]) @ C"
proof -
  from has_first [OF assms, of "\<lambda>subs. subs @ [s]"] obtain j where j: "j < length m" "fst (m ! j) = t"
    "snd (m ! j) = array m t" "mutate t (\<lambda>subs. subs @ [s]) m = m[j := (t, array m t @ [s])]" by blast
  then show ?thesis using refs_split [of j m] refs_update [of j m t "array m t @ [s]"] by auto
qed

text \<open>
  A \<open>subscribe\<close> that raises leaves every object and every array as it was (it may
  have made a symbol, and an empty array for a new topic). An accepted one returns the
  symbol it has just made, makes one object carrying that symbol, the given handler and
  the budget, appends it to the array of the topic, and leaves the other arrays as they
  were.
\<close>

lemma subscribe_effect:
  assumes "subscribe w topic h n = (res, w')"
  shows "((\<exists>e. res = Inl e) \<and> objects w' = objects w \<and> refs w' = refs w \<and>
          nextSymbol w \<le> nextSymbol w' \<and> (\<forall>t. subscriptions w' t = subscriptions w t)) \<or>
         (\<exists>t f b A C. assertValidTopicAndHandler topic h = Inr (t, f) \<and>
            res = Inr (JSymbol (nextSymbol w)) \<and>
            (if n = JUndefined then JNumber PosInfinity else n) = JNumber b \<and>
            \<not> less_than_one b \<and>
            objects w' =
              (objects w)(nextSymbol w := \<lparr>symbol = nextSymbol w, handler = f, invocationsLeft = b\<rparr>) \<and>
            refs w = A @ subscriptions w t @ C \<and>
            refs w' = A @ (subscriptions w t @ [nextSymbol w]) @ C \<and>
            subscriptions w' t = subscriptions w t @ [nextSymbol w] \<and>
            (\<forall>t'. t' \<noteq> t \<longrightarrow> subscriptions w' t' = subscriptions w t') \<and>
            nextSymbol w' = Suc (nextSymbol w))"
proof (cases "assertValidTopicAndHandler topic h")
  case (Inl e)
  with assms show ?thesis by (auto simp: subscribe_def)
next
  case (Inr p)
  obtain t f where p: "p = (t, f)" by (cases p)
  let ?m = "topicToSubscriptionsMap w"
  let ?m1 = "if \<not> has ?m t then ?m @ [(t, [])] else ?m"
  let ?n = "if n = JUndefined then JNumber PosInfinity else n"
  let ?y = "nextSymbol w"
  have e1: "concat (map snd ?m1) = concat (map snd ?m)" by simp
  have h1: "has ?m1 t" by (simp add: has_append)
  have a1: "array ?m1 t' = array ?m t'" for t' by (simp add: array_append_other)
  show ?thesis
  proof (cases "newSubscription ?y f ?n")
    case (Inl e)
    with assms Inr p have "res = Inl e"
      "w' = w\<lparr>topicToSubscriptionsMap := ?m1, nextSymbol := Suc ?y\<rparr>"
      by (auto simp: subscribe_def Let_def)
    with e1 a1 show ?thesis by (simp add: refs_def subscriptions_def)
  next
    case sub: (Inr sub)
    from newSubscription_Inr [OF this] obtain b where b: "?n = JNumber b" "\<not> less_than_one b"
      "sub = \<lparr>symbol = ?y, handler = f, invocationsLeft = b\<rparr>" by blast
    from sub assms Inr p
    have w': "res = Inr (JSymbol ?y)"
      "w' = w\<lparr>objects := (objects w)(?y := sub),
              topicToSubscriptionsMap := mutate t (\<lambda>subs. subs @ [?y]) ?m1,
              nextSymbol := Suc ?y\<rparr>"
      by (auto simp: subscribe_def Let_def)
    from refs_push [OF h1, of ?y] obtain A C where
      AC: "concat (map snd ?m1) = A @ array ?m1 t @ C"
          "concat (map snd (mutate t (\<lambda>subs. subs @ [?y]) ?m1)) = A @ (array ?m1 t @ [?y]) @ C"
      by blast
    have 1: "refs w = A @ subscriptions w t @ C"
      using AC(1) e1 a1 [of t] by (simp add: refs_def subscriptions_def)
    have 2: "refs w' = A @ (subscriptions w t @ [?y]) @ C"
      using AC(2) a1 [of t] unfolding w' by (simp add: refs_def subscriptions_def)
    have 3: "subscriptions w' t = subscriptions w t @ [?y]"
      unfolding w' using h1 a1 [of t] by (simp add: subscriptions_def array_mutate)
    have 4: "\<forall>t'. t' \<noteq> t \<longrightarrow> subscriptions w' t' = subscriptions w t'"
      unfolding w' using a1 by (simp add: subscriptions_def array_other_mutate)
    have 5: "objects w' = (objects w)(?y := \<lparr>symbol = ?y, handler = f, invocationsLeft = b\<rparr>)"
      "nextSymbol w' = Suc ?y"
      unfolding w' b(3) by simp_all
    from Inr p w'(1) b(1,2) 1 2 3 4 5 show ?thesis by blast
  qed
qed

subsection \<open>Registries stay well formed\<close>








subsection \<open>Finding a subscription by its symbol\<close>






subsection \<open>A removed symbol stays removed\<close>




subsection \<open>A stretch of eligible subscriptions\<close>

text \<open>The pass only adds to the calls made.\<close>

lemma callback_calls:
  "\<exists>tr2. snd (snd (callback env t args k w tr)) = tr @ tr2"
  by (auto simp: callback_def Let_def split: prod.splits option.splits sum.splits)

lemma forEach_calls:
  "\<exists>tr2. snd (snd (forEach env t args k len w tr)) = tr @ tr2"
proof (induction "len - k" arbitrary: k w tr)
  case 0
  then show ?case by (simp add: forEach_done)
next
  case (Suc n)
  then have klen: "k < len" by simp
  have n: "n = len - Suc k" using Suc.hyps(2) by simp
  show ?case
  proof (cases "k < length (subscriptions w t)")
    case False
    from Suc.hyps(1) [OF n] show ?thesis by (simp add: forEach_skip [OF klen False])
  next
    case True
    obtain r0 w0 tr0 where c: "callback env t args k w tr = (r0, w0, tr0)"
      by (cases "callback env t args k w tr")
    from callback_calls [of env t args k w tr] c obtain tr1 where tr0: "tr0 = tr @ tr1" by auto
    show ?thesis
    proof (cases r0)
      case (Some e)
      with c have "callback env t args k w tr = (Some e, w0, tr0)" by simp
      from forEach_stop [OF klen True this] tr0 show ?thesis by simp
    next
      case None
      with c have c': "callback env t args k w tr = (None, w0, tr0)" by simp
      from Suc.hyps(1) [OF n, of w0 tr0] tr0
      show ?thesis by (auto simp: forEach_next [OF klen True c'])
    qed
  qed
qed

lemma callback_returns:
  assumes "greater_than_zero (invocationsLeft (objects w (subscriptions w t ! k)))"
      and "env (length tr) (handler (objects w (subscriptions w t ! k))) (subscriptions w t ! k) args w
             = (None, w1)"
  shows "callback env t args k w tr =
           (None,
            w1\<lparr>objects := (objects w1)
               (subscriptions w t ! k := decrement (objects w1 (subscriptions w t ! k)))\<rparr>,
            tr @ [(handler (objects w (subscriptions w t ! k)), subscriptions w t ! k, args)])"
  using assms by (simp add: callback_def Let_def)

text \<open>
  A stretch of the pass over \<open>n\<close> subscriptions from index \<open>a\<close> on, all eligible, the
  calls made for them returning without a change of state: each of them is called once,
  in order, and decremented, and nothing else changes.
\<close>

lemma forEach_range:
  assumes "distinct (subscriptions w t)"
      and "\<forall>i<n. greater_than_zero (invocationsLeft (objects w (subscriptions w t ! (a + i))))"
      and "\<forall>i<n. \<forall>f r w'. env (length tr + i) f r args w' = (None, w')"
      and "a + n \<le> length (subscriptions w t)"
  shows "forEach env t args a (a + n) w tr =
           (None, w\<lparr>objects := decremented (set (take n (drop a (subscriptions w t)))) (objects w)\<rparr>,
            tr @ map (call_of w args) (take n (drop a (subscriptions w t))))"
  using assms(2,3,4)
proof (induction n)
  case 0
  have "w\<lparr>objects := decremented {} (objects w)\<rparr> = w" by (simp add: decremented_def)
  then show ?case by (simp add: forEach_done)
next
  case (Suc n)
  let ?xs = "subscriptions w t"
  let ?S = "take n (drop a ?xs)"
  let ?wn = "w\<lparr>objects := decremented (set ?S) (objects w)\<rparr>"
  let ?trn = "tr @ map (call_of w args) ?S"
  let ?r = "?xs ! (a + n)"
  from Suc.prems have IH: "forEach env t args a (a + n) w tr = (None, ?wn, ?trn)"
    by (intro Suc.IH) simp_all
  have an: "a + n < length ?xs" using Suc.prems(3) by simp
  have S: "take (Suc n) (drop a ?xs) = ?S @ [?r]"
    using an by (simp add: take_Suc_conv_app_nth)
  have "distinct (take (Suc n) (drop a ?xs))" using assms(1) by (simp add: distinct_drop)
  then have notin: "?r \<notin> set ?S" unfolding S by simp
  have subs: "subscriptions ?wn t = ?xs" by (simp add: subscriptions_def)
  have obj: "decremented (set ?S) (objects w) ?r = objects w ?r"
    using notin by (simp add: decremented_def)
  have el: "greater_than_zero (invocationsLeft (objects ?wn (subscriptions ?wn t ! (a + n))))"
    using Suc.prems(1) by (simp add: subs obj)
  have len: "length ?trn = length tr + n" using an by simp
  from Suc.prems(2) have e: "env (length ?trn) f r args w' = (None, w')" for f r w'
    unfolding len by simp
  have e': "env (length ?trn) (handler (objects ?wn (subscriptions ?wn t ! (a + n))))
       (subscriptions ?wn t ! (a + n)) args ?wn = (None, ?wn)"
    by (rule e)
  note c = callback_returns [of ?wn t "a + n" env ?trn args ?wn, OF el e']
  have objs: "(decremented (set ?S) (objects w))(?r := decrement (objects w ?r)) =
              decremented (set (take (Suc n) (drop a ?xs))) (objects w)"
    unfolding S using notin by (auto simp: decremented_def fun_eq_iff)
  have "forEach env t args a (a + Suc n) w tr = forEach env t args (a + n) (a + Suc n) ?wn ?trn"
    using forEach_split [of a "a + n" "a + Suc n" env t args w tr] IH by simp
  also have "\<dots> = forEach env t args (Suc (a + n)) (a + Suc n)
       (?wn\<lparr>objects := (objects ?wn)
          (subscriptions ?wn t ! (a + n) := decrement (objects ?wn (subscriptions ?wn t ! (a + n))))\<rparr>)
       (?trn @ [(handler (objects ?wn (subscriptions ?wn t ! (a + n))), subscriptions ?wn t ! (a + n), args)])"
    by (rule forEach_next [OF _ _ c]) (simp_all add: subs an)
  also have "\<dots> = (None, ?wn\<lparr>objects := (objects ?wn)
          (subscriptions ?wn t ! (a + n) := decrement (objects ?wn (subscriptions ?wn t ! (a + n))))\<rparr>,
       ?trn @ [(handler (objects ?wn (subscriptions ?wn t ! (a + n))), subscriptions ?wn t ! (a + n), args)])"
    by (simp add: forEach_done)
  finally have F: "forEach env t args a (a + Suc n) w tr =
      (None, w\<lparr>objects := (decremented (set ?S) (objects w))(?r := decrement (objects w ?r))\<rparr>,
       ?trn @ [call_of w args ?r])"
    by (simp add: subs obj call_of_def)
  show ?case unfolding F objs by (simp add: S)
qed

text \<open>
  When every subscription of the topic is eligible and every call returns without a change
  of state, \<open>publish\<close> calls each handler once, in order, on its subscription and with
  the arguments given, and decrements each subscription.
\<close>

lemma publish_eligible:
  assumes "assertValidTopic topic = Inr t"
      and "subscriptions w t \<noteq> []" and "distinct (subscriptions w t)"
      and "\<forall>r\<in>set (subscriptions w t). greater_than_zero (invocationsLeft (objects w r))"
      and "\<forall>i<length (subscriptions w t). \<forall>f r w'. env i f r args w' = (None, w')"
  shows "publish env w topic args =
           (Inr True, w\<lparr>objects := decremented (set (subscriptions w t)) (objects w)\<rparr>,
            map (call_of w args) (subscriptions w t))"
proof -
  let ?xs = "subscriptions w t"
  have "forEach env t args 0 (0 + length ?xs) w [] =
           (None, w\<lparr>objects := decremented (set (take (length ?xs) (drop 0 ?xs))) (objects w)\<rparr>,
            [] @ map (call_of w args) (take (length ?xs) (drop 0 ?xs)))"
    using assms(3,4,5) by (intro forEach_range) simp_all
  then show ?thesis unfolding publish_pass [OF assms(1,2), of env args] by simp
qed

text \<open>
  When the subscriptions up to index \<open>p\<close> are eligible and the calls made before the
  one for index \<open>p\<close> return without a change of state, the first \<open>p + 1\<close> calls of
  \<open>publish\<close> are those for the subscriptions up to index \<open>p\<close>, in order.
\<close>

lemma publish_prefix:
  assumes "assertValidTopic topic = Inr t"
      and "p < length (subscriptions w t)" and "distinct (subscriptions w t)"
      and "\<forall>i\<le>p. greater_than_zero (invocationsLeft (objects w (subscriptions w t ! i)))"
      and "\<forall>i<p. \<forall>f r w'. env i f r args w' = (None, w')"
  shows "take (Suc p) (snd (snd (publish env w topic args))) =
           map (call_of w args) (take (Suc p) (subscriptions w t))"
proof -
  let ?xs = "subscriptions w t"
  let ?S = "take p ?xs"
  let ?wp = "w\<lparr>objects := decremented (set ?S) (objects w)\<rparr>"
  let ?trp = "map (call_of w args) ?S"
  let ?r = "?xs ! p"
  let ?len = "length ?xs"
  from assms(2) have ne: "?xs \<noteq> []" by auto
  have "forEach env t args 0 (0 + p) w [] =
           (None, w\<lparr>objects := decremented (set (take p (drop 0 ?xs))) (objects w)\<rparr>,
            [] @ map (call_of w args) (take p (drop 0 ?xs)))"
    using assms(2,3,4,5) by (intro forEach_range) simp_all
  then have 1: "forEach env t args 0 p w [] = (None, ?wp, ?trp)" by simp
  have S: "take (Suc p) ?xs = ?S @ [?r]" using assms(2) by (simp add: take_Suc_conv_app_nth)
  have "distinct (take (Suc p) ?xs)" using assms(3) by simp
  then have notin: "?r \<notin> set ?S" unfolding S by simp
  have subs: "subscriptions ?wp t = ?xs" by (simp add: subscriptions_def)
  have obj: "decremented (set ?S) (objects w) ?r = objects w ?r"
    using notin by (simp add: decremented_def)
  have el: "greater_than_zero (invocationsLeft (objects ?wp (subscriptions ?wp t ! p)))"
    using assms(4) by (simp add: subs obj)
  have pl: "p < length (subscriptions ?wp t)" using assms(2) by (simp add: subs)
  have 2: "forEach env t args 0 ?len w [] = forEach env t args p ?len ?wp ?trp"
    using forEach_split [of 0 p ?len env t args w "[]"] 1 assms(2) by simp
  have "\<exists>tr2. snd (snd (forEach env t args p ?len ?wp ?trp)) = (?trp @ [call_of w args ?r]) @ tr2"
  proof -
    let ?f = "handler (objects ?wp (subscriptions ?wp t ! p))"
    let ?self = "subscriptions ?wp t ! p"
    have call: "(?f, ?self, args) = call_of w args ?r" by (simp add: subs obj call_of_def)
    obtain o1 w1 where e: "env (length ?trp) ?f ?self args ?wp = (o1, w1)"
      by (cases "env (length ?trp) ?f ?self args ?wp")
    show ?thesis
    proof (cases o1)
      case (Some v)
      with e have e': "env (length ?trp) ?f ?self args ?wp = (Some v, w1)" by simp
      from forEach_throw_here [of p ?len ?wp t env ?trp args v w1, OF assms(2) pl el e']
      show ?thesis unfolding call by simp
    next
      case None
      with e have e': "env (length ?trp) ?f ?self args ?wp = (None, w1)" by simp
      note c = callback_returns [of ?wp t p env ?trp args w1, OF el e']
      from forEach_next [OF assms(2) pl c]
        forEach_calls [of env t args "Suc p" ?len
          "w1\<lparr>objects := (objects w1)(?self := decrement (objects w1 ?self))\<rparr>"
          "?trp @ [(?f, ?self, args)]"]
      show ?thesis unfolding call by auto
    qed
  qed
  then obtain tr2 where
    "snd (snd (forEach env t args 0 ?len w [])) = map (call_of w args) (take (Suc p) ?xs) @ tr2"
    unfolding 2 S by auto
  moreover have "snd (snd (publish env w topic args)) = snd (snd (forEach env t args 0 ?len w []))"
    unfolding publish_pass [OF assms(1) ne, of env args]
    by (simp split: prod.splits option.splits)
  moreover have "length (map (call_of w args) (take (Suc p) ?xs)) = Suc p"
    using assms(2) by simp
  ultimately show ?thesis by simp
qed

subsection \<open>Rejected calls\<close>

lemma rejected_subscribe:
  "assertValidTopicAndHandler topic h = Inl e \<Longrightarrow> subscribe w topic h n = (Inl e, w)"
  by (simp add: subscribe_def)

lemma rejected_publish:
  "assertValidTopic topic = Inl e \<Longrightarrow> publish env w topic args = (Inl e, w, [])"
  by (simp add: publish_def)

lemma rejected_unsubscribe:
  "unsubscribe w args = (Inl e, w') \<Longrightarrow> w' = w"
  by (drule unsubscribe_effect) simp

text \<open>
  A \<open>subscribe\<close> rejected for its budget leaves every object and every sequence as it
  was.
\<close>

lemma rejected_budget:
  assumes "subscribe w topic h n = (Inl e, w')"
  shows "objects w' = objects w \<and> (\<forall>t. subscriptions w' t = subscriptions w t)"
  using subscribe_effect [OF assms] by auto

section \<open>C1: publish reaches every live subscription once, in order\<close>

text \<open>
  C1. For every topic and every publish call, each handler of a subscription with a
  positive or unbounded budget at the start of the call is invoked exactly once, in
  registration order, with the published arguments unchanged, even when exhausted
  subscriptions are removed from the same sequence during the pass.

  pubsub.js does not do this. After \<open>subscribe("a", f1, 1)\<close>, \<open>subscribe("a", f2)\<close> and
  \<open>publish("a", 42)\<close> the first subscription is exhausted. The next \<open>publish("a", 99)\<close>
  splices it out of the array that \<open>forEach\<close> is walking, the second subscription moves
  to index 0, and \<open>forEach\<close> goes on to index 1, where nothing is left: \<open>f2\<close>, whose
  budget is unbounded, is not called at all. The theorem evaluates the registry before
  that call and the call: it returns \<open>true\<close>, leaves the second subscription alone in
  the array, and calls no handler.

  When every subscription of the topic is eligible and every handler returns without
  changing the registry, \<open>publish\<close> does call each handler once, in order, with the
  arguments it was given (\<open>publish_eligible\<close>).
\<close>

theorem publish_skips_live_subscription:
  "view
     (run init
        (map (Pair quiet)
           [Subscribe (JString ''a'') (JFunction 1) (JNumber (Finite 1)),
            Subscribe (JString ''a'') (JFunction 2) JUndefined,
            Publish (JString ''a'') [JNumber (Finite 42)]]))
   = [(''a'', [subscr 0 1 (Finite 0), subscr 1 2 PosInfinity])] \<and>
   fst (publish quiet
     (run init
        (map (Pair quiet)
           [Subscribe (JString ''a'') (JFunction 1) (JNumber (Finite 1)),
            Subscribe (JString ''a'') (JFunction 2) JUndefined,
            Publish (JString ''a'') [JNumber (Finite 42)]]))
     (JString ''a'') [JNumber (Finite 99)]) = Inr True \<and>
   view (fst (snd (publish quiet
     (run init
        (map (Pair quiet)
           [Subscribe (JString ''a'') (JFunction 1) (JNumber (Finite 1)),
            Subscribe (JString ''a'') (JFunction 2) JUndefined,
            Publish (JString ''a'') [JNumber (Finite 42)]]))
     (JString ''a'') [JNumber (Finite 99)])))
   = [(''a'', [subscr 1 2 PosInfinity])] \<and>
   snd (snd (publish quiet
     (run init
        (map (Pair quiet)
           [Subscribe (JString ''a'') (JFunction 1) (JNumber (Finite 1)),
            Subscribe (JString ''a'') (JFunction 2) JUndefined,
            Publish (JString ''a'') [JNumber (Finite 42)]]))
     (JString ''a'') [JNumber (Finite 99)])) = []"
  by code_simp

text \<open>
  The same happens to a subscription with a finite budget: with budgets 1 and 2, the
  second publish does not call the second handler, whose counter is still 1 after two
  publishes.
\<close>

lemma publish_skips_budgeted_subscription:
  "view
     (run init
        (map (Pair quiet)
           [Subscribe (JString ''a'') (JFunction 1) (JNumber (Finite 1)),
            Subscribe (JString ''a'') (JFunction 2) (JNumber (Finite 2)),
            Publish (JString ''a'') [],
            Publish (JString ''a'') []]))
   = [(''a'', [subscr 1 2 (Finite 1)])] \<and>
   snd (snd (publish quiet
     (run init
        (map (Pair quiet)
           [Subscribe (JString ''a'') (JFunction 1) (JNumber (Finite 1)),
            Subscribe (JString ''a'') (JFunction 2) (JNumber (Finite 2)),
            Publish (JString ''a'') []]))
     (JString ''a'') [])) = []"
  by code_simp

section \<open>C3: the result of publish\<close>

text \<open>
  C3, as amended. For every valid topic, \<open>publish\<close> returns \<open>false\<close> if and only if the
  topic has no sequence or an empty one at call time. When at least one subscription is
  present, it returns \<open>true\<close> unless a handler it calls throws, and then it raises what
  that handler threw: it raises \<open>v\<close> exactly when its pass comes, without a throw, to
  an eligible subscription whose handler throws \<open>v\<close> (\<open>throws_at\<close>), and it returns
  \<open>true\<close> exactly when a subscription is present and the pass comes to no such
  subscription. In particular it returns \<open>true\<close>, calling no handler, when every
  subscription present is exhausted.
\<close>

theorem publish_result:
  assumes "assertValidTopic topic = Inr t"
  shows "((fst (publish env w topic args) = Inr False) =
            (get (topicToSubscriptionsMap w) t = None \<or> get (topicToSubscriptionsMap w) t = Some [])) \<and>
         ((fst (publish env w topic args) = Inl (Thrown v)) =
            (\<exists>k<length (subscriptions w t). throws_at env w t args k v)) \<and>
         ((fst (publish env w topic args) = Inr True) =
            (subscriptions w t \<noteq> [] \<and>
             \<not> (\<exists>k<length (subscriptions w t). \<exists>u. throws_at env w t args k u))) \<and>
         (subscriptions w t \<noteq> [] \<and> (\<forall>r\<in>set (subscriptions w t). exhausted (objects w r)) \<longrightarrow>
            fst (publish env w topic args) = Inr True \<and>
            snd (snd (publish env w topic args)) = [])"
proof (cases "subscriptions w t = []")
  case True
  then have "get (topicToSubscriptionsMap w) t = None \<or> get (topicToSubscriptionsMap w) t = Some []"
    by (auto simp: subscriptions_def array_def get_def split: option.splits)
  with publish_empty [OF assms True, of env args] True show ?thesis by simp
next
  case False
  from valid_topic [OF assms] have t: "t \<noteq> []" by simp
  let ?len = "length (subscriptions w t)"
  obtain r0 w0 tr0 where f: "forEach env t args 0 ?len w [] = (r0, w0, tr0)"
    by (cases "forEach env t args 0 ?len w []")
  have p: "publish env w topic args =
             (case r0 of Some e \<Rightarrow> (Inl e, w0, tr0) | None \<Rightarrow> (Inr True, w0, tr0))"
    unfolding publish_pass [OF assms False, of env args] f by (simp split: option.splits)
  have thr: "(r0 = Some (Thrown u)) = (\<exists>k<?len. throws_at env w t args k u)" for u
  proof
    assume "r0 = Some (Thrown u)"
    with f have "forEach env t args 0 ?len w [] = (Some (Thrown u), w0, tr0)" by simp
    then show "\<exists>k<?len. throws_at env w t args k u"
      unfolding forEach_raises [OF t] throws_at_iff by blast
  next
    assume "\<exists>k<?len. throws_at env w t args k u"
    then obtain k wk trk w' where k: "k < ?len" "forEach env t args 0 k w [] = (None, wk, trk)"
      "k < length (subscriptions wk t)"
      "greater_than_zero (invocationsLeft (objects wk (subscriptions wk t ! k)))"
      "env (length trk) (handler (objects wk (subscriptions wk t ! k)))
          (subscriptions wk t ! k) args wk = (Some u, w')"
      unfolding throws_at_iff by blast
    then have "forEach env t args 0 ?len w [] = (Some (Thrown u), w',
         trk @ [(handler (objects wk (subscriptions wk t ! k)), subscriptions wk t ! k, args)])"
      unfolding forEach_raises [OF t] by blast
    with f show "r0 = Some (Thrown u)" by simp
  qed
  have 1: "(fst (publish env w topic args) = Inr False) =
            (get (topicToSubscriptionsMap w) t = None \<or> get (topicToSubscriptionsMap w) t = Some [])"
    using p False by (auto simp: subscriptions_def array_def get_def split: option.splits)
  have 2: "(fst (publish env w topic args) = Inl (Thrown v)) =
            (\<exists>k<?len. throws_at env w t args k v)"
    using p thr [of v] by (auto split: option.splits)
  have 3: "(fst (publish env w topic args) = Inr True) =
            (subscriptions w t \<noteq> [] \<and> \<not> (\<exists>k<?len. \<exists>u. throws_at env w t args k u))"
  proof (cases r0)
    case None
    with thr have "\<not> (\<exists>k<?len. \<exists>u. throws_at env w t args k u)" by blast
    with p None False show ?thesis by simp
  next
    case (Some e)
    with forEach_raises_thrown [OF t f [unfolded Some]] obtain u where "r0 = Some (Thrown u)"
      by blast
    with thr [of u] p show ?thesis by auto
  qed
  have 4: "fst (publish env w topic args) = Inr True \<and> snd (snd (publish env w topic args)) = []"
    if "\<forall>r\<in>set (subscriptions w t). exhausted (objects w r)"
  proof -
    from forEach_exhausted [OF t that, of env args 0 ?len "[]"] f
    have "r0 = None" "tr0 = []" by auto
    with p show ?thesis by simp
  qed
  from 1 2 3 4 show ?thesis by blast
qed

text \<open>
  The witness of C3: with three subscribers of which the second throws, \<open>publish\<close>
  raises what it threw; with the same subscribers and no throw, it returns \<open>true\<close>;
  with one exhausted subscriber, it returns \<open>true\<close> and calls nothing.
\<close>

theorem publish_result_witness:
  "assertValidTopic (JString ''a'') = Inr ''a'' \<and>
   throws_at (throwing 2 (JString ''boom'')) three_subscribers ''a'' [JNull] 1 (JString ''boom'') \<and>
   fst (publish (throwing 2 (JString ''boom'')) three_subscribers (JString ''a'') [JNull]) =
     Inl (Thrown (JString ''boom'')) \<and>
   fst (publish quiet three_subscribers (JString ''a'') [JNull]) = Inr True \<and>
   \<not> (\<exists>k<length (subscriptions three_subscribers ''a''). \<exists>u.
        throws_at quiet three_subscribers ''a'' [JNull] k u) \<and>
   view one_exhausted = [(''a'', [subscr 0 1 (Finite 0)])] \<and>
   fst (publish quiet one_exhausted (JString ''a'') [JNumber (Finite 99)]) = Inr True \<and>
   snd (snd (publish quiet one_exhausted (JString ''a'') [JNumber (Finite 99)])) = []"
proof -
  have v: "assertValidTopic (JString ''a'') = Inr ''a''" by simp
  have l: "1 < length (subscriptions three_subscribers ''a'')" by code_simp
  have th: "throws_at (throwing 2 (JString ''boom'')) three_subscribers ''a'' [JNull] 1 (JString ''boom'')"
    by code_simp
  from publish_result [OF v, of "throwing 2 (JString ''boom'')" three_subscribers "[JNull]" "JString ''boom''"] l th
  have 1: "fst (publish (throwing 2 (JString ''boom'')) three_subscribers (JString ''a'') [JNull]) =
     Inl (Thrown (JString ''boom''))" by blast
  have q: "fst (publish quiet three_subscribers (JString ''a'') [JNull]) = Inr True" by code_simp
  with publish_result [OF v, of quiet three_subscribers "[JNull]"]
  have 2: "\<not> (\<exists>k<length (subscriptions three_subscribers ''a''). \<exists>u.
        throws_at quiet three_subscribers ''a'' [JNull] k u)" by blast
  have e: "view one_exhausted = [(''a'', [subscr 0 1 (Finite 0)])]" by code_simp
  have s: "subscriptions one_exhausted ''a'' = [0]" by code_simp
  have o: "objects one_exhausted 0 = subscr 0 1 (Finite 0)" by code_simp
  have "subscriptions one_exhausted ''a'' \<noteq> [] \<and>
        (\<forall>r\<in>set (subscriptions one_exhausted ''a''). exhausted (objects one_exhausted r))"
    unfolding s by (simp add: o exhausted_def subscr_def)
  with publish_result [OF v, of quiet one_exhausted "[JNumber (Finite 99)]"]
  have 3: "fst (publish quiet one_exhausted (JString ''a'') [JNumber (Finite 99)]) = Inr True \<and>
      snd (snd (publish quiet one_exhausted (JString ''a'') [JNumber (Finite 99)])) = []"
    by blast
  from v th 1 q 2 e 3 show ?thesis by blast
qed

text \<open>
  C3 as stated says \<open>publish\<close> returns \<open>true\<close> whenever a subscription is present. With
  one unbounded subscription whose handler throws, \<open>publish\<close> returns nothing: the
  handler is called and what it throws reaches the caller.
\<close>

theorem publish_result_counterexample:
  "view (run init
           (map (Pair (throwing 1 (JString ''boom'')))
              [Subscribe (JString ''a'') (JFunction 1) JUndefined]))
     = [(''a'', [subscr 0 1 PosInfinity])] \<and>
   fst (publish (throwing 1 (JString ''boom''))
          (run init
             (map (Pair (throwing 1 (JString ''boom'')))
                [Subscribe (JString ''a'') (JFunction 1) JUndefined]))
          (JString ''a'') [])
     = Inl (Thrown (JString ''boom'')) \<and>
   snd (snd (publish (throwing 1 (JString ''boom''))
          (run init
             (map (Pair (throwing 1 (JString ''boom'')))
                [Subscribe (JString ''a'') (JFunction 1) JUndefined]))
          (JString ''a'') []))
     = [(1, 0, [])]"
  by code_simp

section \<open>C4: a rejected call leaves the registry as it was\<close>

text \<open>
  C4. Every invalid input (an empty or non-string topic, a handler that is not a
  function, an \<open>invocationsLeft\<close> that is not a number of at least 1, a non-symbol
  handle, an \<open>unsubscribe\<close> with no or more than two arguments) raises an error and
  leaves the registry, the map of topics included, exactly as it was.

  pubsub.js does not do this for \<open>invocationsLeft\<close>. \<open>subscribe\<close> checks the topic and
  the handler first, then sets an empty array for a topic the map does not have, and
  only then builds the \<open>Subscription\<close>, whose constructor checks \<open>invocationsLeft\<close>.
  On a fresh registry \<open>subscribe("a", f, 0)\<close> raises the \<open>TypeError\<close> and leaves the
  map with the new key \<open>"a"\<close>. The check itself, \<open>invocationsLeft < 1\<close>, is false on
  \<open>NaN\<close>, so \<open>subscribe("a", f, NaN)\<close> raises nothing and adds a subscription. Every
  other rejected call leaves the registry as it was (\<open>rejected_subscribe\<close>,
  \<open>rejected_publish\<close>, \<open>rejected_unsubscribe\<close>), and this one leaves every sequence
  as it was (\<open>rejected_budget\<close>).
\<close>

theorem failed_subscribe_changes_map:
  "fst (subscribe init (JString ''a'') (JFunction 1) (JNumber (Finite 0))) =
     Inl (TypeError ''invocationsLeft must by a number > 0'') \<and>
   topicToSubscriptionsMap (snd (subscribe init (JString ''a'') (JFunction 1) (JNumber (Finite 0)))) =
     [(''a'', [])] \<and>
   nextSymbol (snd (subscribe init (JString ''a'') (JFunction 1) (JNumber (Finite 0)))) = 1 \<and>
   topicToSubscriptionsMap init = [] \<and>
   nextSymbol init = 0 \<and>
   fst (subscribe init (JString ''a'') (JFunction 1) (JNumber NaN)) = Inr (JSymbol 0) \<and>
   view (snd (subscribe init (JString ''a'') (JFunction 1) (JNumber NaN))) =
     [(''a'', [\<lparr>symbol = 0, handler = 1, invocationsLeft = NaN\<rparr>])] \<and>
   nextSymbol (snd (subscribe init (JString ''a'') (JFunction 1) (JNumber NaN))) = 1"
  by code_simp

section \<open>C5: publish removes the exhausted subscription itself\<close>

text \<open>
  C5. When \<open>publish\<close> meets an exhausted subscription, the subscription it removes is
  that one, not another subscription of the same handler.

  pubsub.js does not do this. \<open>publish\<close> calls \<open>unsubscribeHandler(topic, sub.handler)\<close>,
  which removes the first subscription of the topic with that handler. After
  \<open>subscribe("a", f)\<close>, \<open>subscribe("a", f, 1)\<close> and \<open>publish("a")\<close> the array holds the
  unbounded subscription, then the exhausted one. The next \<open>publish("a")\<close> calls \<open>f\<close>
  for the first, meets the second, and removes the first: the array is left with the
  exhausted subscription only.
\<close>

theorem publish_removes_live_duplicate:
  "view
     (run init
        (map (Pair quiet)
         [Subscribe (JString ''a'') (JFunction 7) JUndefined,
          Subscribe (JString ''a'') (JFunction 7) (JNumber (Finite 1)),
          Publish (JString ''a'') []]))
   = [(''a'', [\<lparr>symbol = 0, handler = 7, invocationsLeft = PosInfinity\<rparr>,
               \<lparr>symbol = 1, handler = 7, invocationsLeft = Finite 0\<rparr>])] \<and>
   fst (publish quiet
     (run init
        (map (Pair quiet)
         [Subscribe (JString ''a'') (JFunction 7) JUndefined,
          Subscribe (JString ''a'') (JFunction 7) (JNumber (Finite 1)),
          Publish (JString ''a'') []]))
     (JString ''a'') []) = Inr True \<and>
   view (fst (snd (publish quiet
     (run init
        (map (Pair quiet)
         [Subscribe (JString ''a'') (JFunction 7) JUndefined,
          Subscribe (JString ''a'') (JFunction 7) (JNumber (Finite 1)),
          Publish (JString ''a'') []]))
     (JString ''a'') [])))
   = [(''a'', [\<lparr>symbol = 1, handler = 7, invocationsLeft = Finite 0\<rparr>])] \<and>
   snd (snd (publish quiet
     (run init
        (map (Pair quiet)
         [Subscribe (JString ''a'') (JFunction 7) JUndefined,
          Subscribe (JString ''a'') (JFunction 7) (JNumber (Finite 1)),
          Publish (JString ''a'') []]))
     (JString ''a'') [])) = [(7, 0, [])]"
  by code_simp

section \<open>C6: unsubscribe by handle\<close>



section \<open>C9: a handler that throws\<close>

text \<open>
  C9. \<open>forEach env t args 0 k w []\<close> is the pass over the indices below \<open>k\<close>. For a
  valid topic, \<open>publish\<close> raises the value \<open>v\<close> thrown by a handler, leaving the state
  \<open>w'\<close> and having made the calls \<open>tr'\<close>, exactly when for some index \<open>k\<close> the pass
  over the indices below \<open>k\<close> ends without a throw in some state \<open>wk\<close>, the
  subscription then at index \<open>k\<close> is eligible, and the call of its handler in \<open>wk\<close>
  throws \<open>v\<close>, leaves \<open>w'\<close> and is the last of \<open>tr'\<close>. So the exception reaches the
  caller of \<open>publish\<close>; the state left is the one the throwing call has left, \<open>publish\<close>
  having changed nothing after it: the counter of the throwing subscription, positive
  when the handler was called, is not decremented for that call; and no subscriber is
  called after the one that threw.
\<close>

theorem publish_handler_throws:
  assumes "assertValidTopic topic = Inr t"
  shows "(publish env w topic args = (Inl (Thrown v), w', tr')) =
         (\<exists>k wk trk. k < length (subscriptions w t) \<and>
            forEach env t args 0 k w [] = (None, wk, trk) \<and>
            k < length (subscriptions wk t) \<and>
            greater_than_zero (invocationsLeft (objects wk (subscriptions wk t ! k))) \<and>
            env (length trk) (handler (objects wk (subscriptions wk t ! k)))
              (subscriptions wk t ! k) args wk = (Some v, w') \<and>
            tr' = trk @ [(handler (objects wk (subscriptions wk t ! k)), subscriptions wk t ! k, args)])"
proof (cases "subscriptions w t = []")
  case True
  with publish_empty [OF assms True, of env args] show ?thesis by simp
next
  case False
  from valid_topic [OF assms] have t: "t \<noteq> []" by simp
  have "(publish env w topic args = (Inl (Thrown v), w', tr')) =
        (forEach env t args 0 (length (subscriptions w t)) w [] = (Some (Thrown v), w', tr'))"
    unfolding publish_pass [OF assms False, of env args]
    by (auto split: prod.splits option.splits)
  then show ?thesis by (simp only: forEach_raises [OF t])
qed

text \<open>
  The witness of C9: three subscribers, the second one throwing. The first has been
  called and decremented, the second has been called and keeps its counter, the third
  has not been called.
\<close>

theorem publish_handler_throws_witness:
  "assertValidTopic (JString ''a'') = Inr ''a'' \<and>
   view three_subscribers =
     [(''a'', [subscr 0 1 (Finite 2), subscr 1 2 PosInfinity, subscr 2 3 PosInfinity])] \<and>
   fst (publish (throwing 2 (JString ''boom'')) three_subscribers (JString ''a'')
          [JNumber (Finite 42)]) = Inl (Thrown (JString ''boom'')) \<and>
   view (fst (snd (publish (throwing 2 (JString ''boom'')) three_subscribers (JString ''a'')
          [JNumber (Finite 42)]))) =
     [(''a'', [subscr 0 1 (Finite 1), subscr 1 2 PosInfinity, subscr 2 3 PosInfinity])] \<and>
   snd (snd (publish (throwing 2 (JString ''boom'')) three_subscribers (JString ''a'')
          [JNumber (Finite 42)])) =
     [(1, 0, [JNumber (Finite 42)]), (2, 1, [JNumber (Finite 42)])]"
proof -
  let ?env = "throwing 2 (JString ''boom'')"
  let ?args = "[JNumber (Finite 42)]"
  let ?p = "forEach ?env ''a'' ?args 0 1 three_subscribers []"
  let ?wk = "fst (snd ?p)"
  have v: "assertValidTopic (JString ''a'') = Inr ''a''" by simp
  have 0: "view three_subscribers =
     [(''a'', [subscr 0 1 (Finite 2), subscr 1 2 PosInfinity, subscr 2 3 PosInfinity])]"
    by code_simp
  have 1: "1 < length (subscriptions three_subscribers ''a'')" by code_simp
  have "fst ?p = None" "snd (snd ?p) = [(1, 0, ?args)]" by code_simp+
  then have 2: "?p = (None, ?wk, [(1, 0, ?args)])" by (metis prod.collapse)
  have s: "subscriptions ?wk ''a'' = [0, 1, 2]" by code_simp
  have 3: "1 < length (subscriptions ?wk ''a'')" unfolding s by simp
  have o: "objects ?wk (subscriptions ?wk ''a'' ! 1) = subscr 1 2 PosInfinity" by code_simp
  have 4: "greater_than_zero (invocationsLeft (objects ?wk (subscriptions ?wk ''a'' ! 1)))"
    unfolding o by (simp add: subscr_def)
  have 5: "?env (length [(1::nat, 0::nat, ?args)]) (handler (objects ?wk (subscriptions ?wk ''a'' ! 1)))
             (subscriptions ?wk ''a'' ! 1) ?args ?wk = (Some (JString ''boom''), ?wk)"
    unfolding o by (simp add: subscr_def throwing_def)
  have 6: "[(1, 0, ?args), (2, 1, ?args)] =
     [(1, 0, ?args)] @ [(handler (objects ?wk (subscriptions ?wk ''a'' ! 1)), subscriptions ?wk ''a'' ! 1, ?args)]"
    unfolding o unfolding s by (simp add: subscr_def)
  have "publish ?env three_subscribers (JString ''a'') ?args =
          (Inl (Thrown (JString ''boom'')), ?wk, [(1, 0, ?args), (2, 1, ?args)])"
    by (rule iffD2 [OF publish_handler_throws [OF v]])
       (intro exI [of _ 1] exI [of _ ?wk] exI [of _ "[(1, 0, ?args)]"] conjI 1 2 3 4 5 6)
  moreover have "view ?wk =
     [(''a'', [subscr 0 1 (Finite 1), subscr 1 2 PosInfinity, subscr 2 3 PosInfinity])]"
    by code_simp
  ultimately show ?thesis using v 0 by simp
qed

section \<open>C10: what one unsubscribe changes\<close>

text \<open>
  C10. A call of \<open>unsubscribe\<close> (with a handle, or with a topic and a handler) changes
  no \<open>Subscription\<close> object. A call that returns \<open>true\<close> has removed one subscription,
  the one at some index \<open>idx\<close> of the array of some entry \<open>j\<close> of the map: the map has
  the same entries in the same order, every entry but the \<open>j\<close>-th is unchanged, and the
  \<open>j\<close>-th keeps its topic and its subscriptions, in order, but the one removed. A call
  that returns \<open>false\<close>, or raises, changes nothing.
\<close>

theorem unsubscribe_frame:
  assumes "unsubscribe w args = (r, w')"
  shows "objects w' = objects w \<and> nextSymbol w' = nextSymbol w \<and>
         (r \<noteq> Inr True \<longrightarrow> w' = w) \<and>
         (r = Inr True \<longrightarrow>
            (\<exists>j idx. j < length (topicToSubscriptionsMap w) \<and>
               idx < length (snd (topicToSubscriptionsMap w ! j)) \<and>
               length (topicToSubscriptionsMap w') = length (topicToSubscriptionsMap w) \<and>
               (\<forall>i<length (topicToSubscriptionsMap w). i \<noteq> j \<longrightarrow>
                  topicToSubscriptionsMap w' ! i = topicToSubscriptionsMap w ! i) \<and>
               topicToSubscriptionsMap w' ! j =
                 (fst (topicToSubscriptionsMap w ! j),
                  take idx (snd (topicToSubscriptionsMap w ! j)) @
                  drop (Suc idx) (snd (topicToSubscriptionsMap w ! j)))))"
proof (cases "r = Inr True")
  case False
  with unsubscribe_effect [OF assms] show ?thesis by simp
next
  case True
  let ?m = "topicToSubscriptionsMap w"
  from True unsubscribe_effect [OF assms] obtain j idx where
    j: "j < length ?m" "idx < length (snd (?m ! j))"
    and w': "w' = w\<lparr>topicToSubscriptionsMap := ?m[j := (fst (?m ! j), splice idx (snd (?m ! j)))]\<rparr>"
    by blast
  have "objects w' = objects w" "nextSymbol w' = nextSymbol w" using w' by simp_all
  moreover have "length (topicToSubscriptionsMap w') = length ?m" using w' by simp
  moreover have "\<forall>i<length ?m. i \<noteq> j \<longrightarrow> topicToSubscriptionsMap w' ! i = ?m ! i"
    using w' by simp
  moreover have "topicToSubscriptionsMap w' ! j =
      (fst (?m ! j), take idx (snd (?m ! j)) @ drop (Suc idx) (snd (?m ! j)))"
    using w' j(1) by (simp add: splice_def)
  ultimately show ?thesis using True j by blast
qed

text \<open>
  The witness of C10: the second subscription of \<open>"x"\<close> is removed; the first one and
  the topic \<open>"y"\<close> are as before.
\<close>

theorem unsubscribe_frame_witness:
  "topicToSubscriptionsMap two_topics = [(''x'', [0, 1]), (''y'', [2])] \<and>
   fst (unsubscribe two_topics [JString ''x'', JFunction 2]) = Inr True \<and>
   topicToSubscriptionsMap (snd (unsubscribe two_topics [JString ''x'', JFunction 2])) =
     [(''x'', [0]), (''y'', [2])] \<and>
   objects (snd (unsubscribe two_topics [JString ''x'', JFunction 2])) = objects two_topics \<and>
   (\<exists>j idx. j < length (topicToSubscriptionsMap two_topics) \<and>
      idx < length (snd (topicToSubscriptionsMap two_topics ! j)) \<and>
      topicToSubscriptionsMap (snd (unsubscribe two_topics [JString ''x'', JFunction 2])) ! j =
        (fst (topicToSubscriptionsMap two_topics ! j),
         take idx (snd (topicToSubscriptionsMap two_topics ! j)) @
         drop (Suc idx) (snd (topicToSubscriptionsMap two_topics ! j))))"
proof -
  let ?u = "unsubscribe two_topics [JString ''x'', JFunction 2]"
  have m: "topicToSubscriptionsMap two_topics = [(''x'', [0, 1]), (''y'', [2])]" by code_simp
  have r: "fst ?u = Inr True" by code_simp
  have m': "topicToSubscriptionsMap (snd ?u) = [(''x'', [0]), (''y'', [2])]" by code_simp
  have u: "?u = (Inr True, snd ?u)" using r by (metis prod.collapse)
  from unsubscribe_frame [OF u] m r m' show ?thesis by blast
qed

end
